theory Spec2Isabelle
  imports Main "HOL-Library.Word"
begin

section \<open>Domain types\<close>

text \<open>
  Usings.h: \<^verbatim>\<open>Price = std::int32_t\<close>, \<^verbatim>\<open>Quantity = std::uint32_t\<close>,
  \<^verbatim>\<open>OrderId = std::uint64_t\<close>. A price is a 32-bit word read as two's complement:
  prices are compared with the signed orders \<open><s\<close> and \<open>\<le>s\<close>; quantities and ids are
  compared with the (unsigned) order of the word type, and quantity arithmetic wraps.
\<close>

type_synonym Price = "32 word"
type_synonym Quantity = "32 word"
type_synonym OrderId = "64 word"

datatype Side = Buy | Sell

datatype OrderType = GoodTillCancel | FillAndKill | FillOrKill | GoodForDay | Market

text \<open>
  The exceptions of the source are values. \<open>LogicError\<close> is \<^verbatim>\<open>std::logic_error\<close>,
  \<open>OutOfRange\<close> is the \<^verbatim>\<open>std::out_of_range\<close> of \<^verbatim>\<open>map::at\<close>, and
  \<open>Undefined\<close> stands for the two places where the C++ has no defined behaviour:
  \<^verbatim>\<open>front()\<close> of an empty list and \<^verbatim>\<open>erase\<close> with an iterator of another list.
  \<open>Deadlock\<close> is no exception: it is the outcome of a call that never returns, because the
  thread waits for a mutex that it holds itself.
\<close>

datatype error = LogicError | OutOfRange | Undefined | Deadlock

subsection \<open>Constants.h\<close>

text \<open>
  \<^verbatim>\<open>static const Price InvalidPrice = std::numeric_limits<Price>::quiet_NaN();\<close>
  For an integer type \<^verbatim>\<open>numeric_limits<T>::has_quiet_NaN\<close> is false and
  \<^verbatim>\<open>quiet_NaN()\<close> returns \<^verbatim>\<open>T()\<close>, which is 0 for \<^verbatim>\<open>std::int32_t\<close>.
\<close>

definition InvalidPrice :: Price where
  "InvalidPrice = 0"

subsection \<open>Order.h\<close>

text \<open>
  The members of \<^verbatim>\<open>Order\<close> are named after their getters (\<^verbatim>\<open>orderType_\<close> is
  \<open>GetOrderType\<close> and so on); \<^verbatim>\<open>quantity_\<close>, which has no getter and is only written
  by the constructor, is \<open>quantityMember\<close>.
\<close>

record Order =
  GetOrderType :: OrderType
  GetOrderId :: OrderId
  GetSide :: Side
  GetPrice :: Price
  quantityMember :: Quantity
  GetInitialQuantity :: Quantity
  GetRemainingQuantity :: Quantity

text \<open>The five-argument constructor of \<^verbatim>\<open>Order\<close>.\<close>

definition mkOrder :: "OrderType \<Rightarrow> OrderId \<Rightarrow> Side \<Rightarrow> Price \<Rightarrow> Quantity \<Rightarrow> Order" where
  "mkOrder t i s p q =
     \<lparr>GetOrderType = t, GetOrderId = i, GetSide = s, GetPrice = p,
      quantityMember = q, GetInitialQuantity = q, GetRemainingQuantity = q\<rparr>"

text \<open>The three-argument constructor: a market order, priced at the sentinel.\<close>

definition mkMarketOrder :: "OrderId \<Rightarrow> Side \<Rightarrow> Quantity \<Rightarrow> Order" where
  "mkMarketOrder i s q = mkOrder Market i s InvalidPrice q"

definition IsFilled :: "Order \<Rightarrow> bool" where
  "IsFilled order = (GetRemainingQuantity order = 0)"

definition GetFilledQuantity :: "Order \<Rightarrow> Quantity" where
  "GetFilledQuantity order = GetInitialQuantity order - GetRemainingQuantity order"

definition Fill :: "Order \<Rightarrow> Quantity \<Rightarrow> error + Order" where
  "Fill order quantity =
     (if quantity > GetRemainingQuantity order then Inl LogicError
      else Inr (order\<lparr>GetRemainingQuantity := GetRemainingQuantity order - quantity\<rparr>))"

definition ToGoodTillCancel :: "Order \<Rightarrow> Price \<Rightarrow> error + Order" where
  "ToGoodTillCancel order price =
     (if GetOrderType order \<noteq> Market then Inl LogicError
      else Inr (order\<lparr>GetPrice := price, GetOrderType := GoodTillCancel\<rparr>))"

subsection \<open>OrderModify.h, TradeInfo.h, Trade.h\<close>

datatype OrderModify =
  OrderModify (modOrderId: OrderId) (modSide: Side) (modPrice: Price) (modQuantity: Quantity)

definition ToOrderPointer :: "OrderModify \<Rightarrow> OrderType \<Rightarrow> Order" where
  "ToOrderPointer m t = mkOrder t (modOrderId m) (modSide m) (modPrice m) (modQuantity m)"

datatype TradeInfo =
  TradeInfo (tradeOrderId: OrderId) (tradePrice: Price) (tradeQuantity: Quantity)

datatype Trade = Trade (GetBidTrade: TradeInfo) (GetAskTrade: TradeInfo)

type_synonym Trades = "Trade list"

section \<open>The containers\<close>

text \<open>
  A \<^verbatim>\<open>std::map\<close> or \<^verbatim>\<open>std::unordered_map\<close> is an association list with one pair
  per key. The two ordered maps \<^verbatim>\<open>bids_\<close> and \<^verbatim>\<open>asks_\<close> keep their pairs in the
  order of their comparator, so that \<^verbatim>\<open>begin()\<close> is the head of the list and
  \<^verbatim>\<open>rbegin()\<close> its last pair. The unordered maps keep them in some order, here the order of
  insertion; results about them hold for every order.
\<close>

definition map_contains :: "('k \<times> 'v) list \<Rightarrow> 'k \<Rightarrow> bool" where
  "map_contains m k = (map_of m k \<noteq> None)"

definition map_at :: "('k \<times> 'v) list \<Rightarrow> 'k \<Rightarrow> error + 'v" where
  "map_at m k = (case map_of m k of None \<Rightarrow> Inl OutOfRange | Some v \<Rightarrow> Inr v)"

definition map_erase :: "'k \<Rightarrow> ('k \<times> 'v) list \<Rightarrow> ('k \<times> 'v) list" where
  "map_erase k m = filter (\<lambda>kv. fst kv \<noteq> k) m"

text \<open>A write through a reference to the value stored under \<open>k\<close>.\<close>

definition map_assign :: "'k \<Rightarrow> 'v \<Rightarrow> ('k \<times> 'v) list \<Rightarrow> ('k \<times> 'v) list" where
  "map_assign k v m = map (\<lambda>kv. if fst kv = k then (k, v) else kv) m"

text \<open>\<^verbatim>\<open>unordered_map::insert\<close>: no effect when the key is present.\<close>

definition map_insert :: "'k \<Rightarrow> 'v \<Rightarrow> ('k \<times> 'v) list \<Rightarrow> ('k \<times> 'v) list" where
  "map_insert k v m = (if map_contains m k then m else m @ [(k, v)])"

text \<open>
  An \<^verbatim>\<open>OrderPointer\<close> (\<^verbatim>\<open>std::shared_ptr<Order>\<close>) is an address of the store
  \<open>heap\<close>; a shared pointer always points to an object, so the store is total. The queue of
  a price level (\<^verbatim>\<open>std::list<OrderPointer>\<close>) is the list of its pointers, front first.
\<close>

type_synonym OrderPointer = nat
type_synonym OrderPointers = "OrderPointer list"
type_synonym Levels = "(Price \<times> OrderPointers) list"

text \<open>
  \<^verbatim>\<open>auto& orders = bids_[price]; orders.push_back(order);\<close> on an ordered map whose
  comparator is \<open>lt\<close>: the level of \<open>price\<close> is created at its place when it is absent.
\<close>

fun push_back_at :: "(Price \<Rightarrow> Price \<Rightarrow> bool) \<Rightarrow> Price \<Rightarrow> OrderPointer \<Rightarrow> Levels \<Rightarrow> Levels" where
  "push_back_at lt k a [] = [(k, [a])]"
| "push_back_at lt k a ((p, q) # m) =
     (if k = p then (p, q @ [a]) # m
      else if lt k p then (k, [a]) # (p, q) # m
      else (p, q) # push_back_at lt k a m)"

text \<open>The comparators: \<^verbatim>\<open>std::greater<Price>\<close> for the bids, \<^verbatim>\<open>std::less<Price>\<close> for the asks.\<close>

definition price_greater :: "Price \<Rightarrow> Price \<Rightarrow> bool" where
  "price_greater a b = (b <s a)"

definition price_less :: "Price \<Rightarrow> Price \<Rightarrow> bool" where
  "price_less a b = (a <s b)"

section \<open>The order book (Orderbook.cpp)\<close>

text \<open>
  Modelled from the spec: \<^verbatim>\<open>Orderbook.h\<close>, which declares the members of the class, is
  not among the sources. The members are as section 3 of the specification gives them:
  \<open>bids\<close> iterated by descending price, \<open>asks\<close> by ascending price, \<open>orders\<close> from
  an order id to the order's pointer and its position in its queue, \<open>data\<close> from a price to
  the pair of a count and an aggregated quantity, both taken to be 32-bit unsigned like
  \<open>Quantity\<close>. The position (a list iterator) is not stored: erasing through it removes the
  pointer from the queue it was pushed on, and is \<open>Undefined\<close> when the queue that the code
  looks up does not hold the pointer.
\<close>

record LevelData =
  levelQuantity :: Quantity
  levelCount :: Quantity

datatype Action = Add | Remove | Match

record Orderbook =
  heap :: "OrderPointer \<Rightarrow> Order"
  nextPointer :: OrderPointer
  bids :: Levels
  asks :: Levels
  orders :: "(OrderId \<times> OrderPointer) list"
  data :: "(Price \<times> LevelData) list"

text \<open>The book after construction. No pointer is in use, so the store's content is immaterial.\<close>

definition emptyBook :: Orderbook where
  "emptyBook =
     \<lparr>heap = (\<lambda>_. mkOrder GoodTillCancel 0 Buy 0 0), nextPointer = 0,
      bids = [], asks = [], orders = [], data = []\<rparr>"

definition UpdateLevelData ::
    "Price \<Rightarrow> Quantity \<Rightarrow> Action \<Rightarrow> (Price \<times> LevelData) list \<Rightarrow> (Price \<times> LevelData) list" where
  "UpdateLevelData p q action dt =
     (let dt1 = (if map_contains dt p then dt
                 else dt @ [(p, \<lparr>levelQuantity = 0, levelCount = 0\<rparr>)]);
          d = (case map_of dt1 p of Some d \<Rightarrow> d
               | None \<Rightarrow> \<lparr>levelQuantity = 0, levelCount = 0\<rparr>);
          d1 = d\<lparr>levelCount := levelCount d
                  + (if action = Remove then - 1 else if action = Add then 1 else 0)\<rparr>;
          d2 = (if action = Remove \<or> action = Match
                then d1\<lparr>levelQuantity := levelQuantity d1 - q\<rparr>
                else d1\<lparr>levelQuantity := levelQuantity d1 + q\<rparr>)
      in if levelCount d2 = 0 then map_erase p dt1 else map_assign p d2 dt1)"

definition OnOrderCancelled :: "Order \<Rightarrow> (Price \<times> LevelData) list \<Rightarrow> (Price \<times> LevelData) list" where
  "OnOrderCancelled order dt = UpdateLevelData (GetPrice order) (GetRemainingQuantity order) Remove dt"

definition OnOrderAdded :: "Order \<Rightarrow> (Price \<times> LevelData) list \<Rightarrow> (Price \<times> LevelData) list" where
  "OnOrderAdded order dt = UpdateLevelData (GetPrice order) (GetInitialQuantity order) Add dt"

definition OnOrderMatched ::
    "Price \<Rightarrow> Quantity \<Rightarrow> bool \<Rightarrow> (Price \<times> LevelData) list \<Rightarrow> (Price \<times> LevelData) list" where
  "OnOrderMatched p q isFullyFilled dt =
     UpdateLevelData p q (if isFullyFilled then Remove else Match) dt"

subsection \<open>CancelOrderInternal, CancelOrder, CancelOrders\<close>

text \<open>
  Modelled from the spec: \<^verbatim>\<open>ordersMutex_\<close> is declared in \<^verbatim>\<open>Orderbook.h\<close>, which is not
  among the sources; section 5 of the specification gives it as a single non-reentrant
  mutex that every public operation holds for its whole duration. The book is that of one
  client thread. A public operation begins with \<^verbatim>\<open>std::scoped_lock ordersLock{ ordersMutex_ }\<close>
  and the private functions run inside a public operation, so whether the thread holds the
  mutex is known at each place of call: \<open>held\<close> is false where the client calls, and true
  inside \<open>AddOrder\<close>, \<open>CancelOrders\<close> and what they call. \<open>scoped_lock held body\<close> is the
  lock followed by \<open>body\<close>: a thread that holds the mutex does not get it again.
\<close>

definition scoped_lock :: "bool \<Rightarrow> error + 'a \<Rightarrow> error + 'a" where
  "scoped_lock held body = (if held then Inl Deadlock else body)"

definition erase_from_level :: "Price \<Rightarrow> OrderPointer \<Rightarrow> Levels \<Rightarrow> error + Levels" where
  "erase_from_level p ptr lv =
     (case map_of lv p of
        None \<Rightarrow> Inl OutOfRange
      | Some q \<Rightarrow>
          if ptr \<in> set q
          then (let q1 = remove1 ptr q
                in Inr (if q1 = [] then map_erase p lv else map_assign p q1 lv))
          else Inl Undefined)"

definition CancelOrderInternal :: "Orderbook \<Rightarrow> OrderId \<Rightarrow> error + Orderbook" where
  "CancelOrderInternal s orderId =
     (case map_of (orders s) orderId of
        None \<Rightarrow> Inr s
      | Some ptr \<Rightarrow>
          (let order = heap s ptr;
               s1 = s\<lparr>orders := map_erase orderId (orders s)\<rparr>
           in if GetSide order = Sell
              then (case erase_from_level (GetPrice order) ptr (asks s1) of
                      Inl e \<Rightarrow> Inl e
                    | Inr lv \<Rightarrow> Inr (s1\<lparr>asks := lv, data := OnOrderCancelled order (data s1)\<rparr>))
              else (case erase_from_level (GetPrice order) ptr (bids s1) of
                      Inl e \<Rightarrow> Inl e
                    | Inr lv \<Rightarrow> Inr (s1\<lparr>bids := lv, data := OnOrderCancelled order (data s1)\<rparr>))))"

text \<open>
  \<open>CancelOrder_from held\<close> is the body of \<open>CancelOrder\<close>, run by a thread for which
  \<open>held\<close> tells whether it holds the mutex at the call; \<open>CancelOrder\<close> is the call of the
  client. \<open>CancelOrders\<close> takes the lock once and calls \<open>CancelOrderInternal\<close>.
\<close>

definition CancelOrder_from :: "bool \<Rightarrow> Orderbook \<Rightarrow> OrderId \<Rightarrow> error + Orderbook" where
  "CancelOrder_from held s orderId = scoped_lock held (CancelOrderInternal s orderId)"

definition CancelOrder :: "Orderbook \<Rightarrow> OrderId \<Rightarrow> error + Orderbook" where
  "CancelOrder s orderId = CancelOrder_from False s orderId"

fun CancelOrders :: "Orderbook \<Rightarrow> OrderId list \<Rightarrow> error + Orderbook" where
  "CancelOrders s [] = Inr s"
| "CancelOrders s (orderId # orderIds) =
     (case CancelOrderInternal s orderId of
        Inl e \<Rightarrow> Inl e
      | Inr s1 \<Rightarrow> CancelOrders s1 orderIds)"

subsection \<open>CanMatch, CanFullyFill\<close>

definition CanMatch :: "Orderbook \<Rightarrow> Side \<Rightarrow> Price \<Rightarrow> bool" where
  "CanMatch s sd p =
     (if sd = Buy
      then (case asks s of [] \<Rightarrow> False | (bestAsk, _) # _ \<Rightarrow> bestAsk \<le>s p)
      else (case bids s of [] \<Rightarrow> False | (bestBid, _) # _ \<Rightarrow> p \<le>s bestBid))"

text \<open>
  The loop of \<open>CanFullyFill\<close> over \<^verbatim>\<open>data_\<close>. The optional \<open>threshold\<close> is set on both
  branches before the loop, so it is a price here; the first test is the source's
  \<^verbatim>\<open>(has_value && (Buy && threshold > levelPrice)) || (Sell && threshold < levelPrice)\<close>.
\<close>

fun CanFullyFill_loop ::
    "Side \<Rightarrow> Price \<Rightarrow> Price \<Rightarrow> Quantity \<Rightarrow> (Price \<times> LevelData) list \<Rightarrow> bool" where
  "CanFullyFill_loop sd threshold p q [] = False"
| "CanFullyFill_loop sd threshold p q ((levelPrice, levelData) # rest) =
     (if (sd = Buy \<and> levelPrice <s threshold) \<or> (sd = Sell \<and> threshold <s levelPrice)
      then CanFullyFill_loop sd threshold p q rest
      else if (sd = Buy \<and> p <s levelPrice) \<or> (sd = Sell \<and> levelPrice <s p)
      then CanFullyFill_loop sd threshold p q rest
      else if q \<le> levelQuantity levelData then True
      else CanFullyFill_loop sd threshold p (q - levelQuantity levelData) rest)"

definition CanFullyFill :: "Orderbook \<Rightarrow> Side \<Rightarrow> Price \<Rightarrow> Quantity \<Rightarrow> bool" where
  "CanFullyFill s sd p q =
     (if \<not> CanMatch s sd p then False
      else (case (if sd = Buy then asks s else bids s) of
              [] \<Rightarrow> False
            | (threshold, _) # _ \<Rightarrow> CanFullyFill_loop sd threshold p q (data s)))"

subsection \<open>MatchOrders\<close>

text \<open>
  The two references \<^verbatim>\<open>bids\<close> and \<^verbatim>\<open>asks\<close> of the loop are the queues of the first
  levels of the two maps. \<open>front_nonempty\<close> is \<^verbatim>\<open>!bids.empty()\<close> and \<open>front_empty\<close> is
  \<^verbatim>\<open>bids.empty()\<close> for such a reference.
\<close>

definition front_nonempty :: "Levels \<Rightarrow> bool" where
  "front_nonempty lv = (case lv of (_, _ # _) # _ \<Rightarrow> True | _ \<Rightarrow> False)"

definition front_empty :: "Levels \<Rightarrow> bool" where
  "front_empty lv = (case lv of (_, []) # _ \<Rightarrow> True | _ \<Rightarrow> False)"

text \<open>
  One pass through the body of the inner \<^verbatim>\<open>while\<close>: the two front orders are filled
  through their pointers, a filled order is popped and erased from \<open>orders\<close>, the trade is
  appended, and the level data is updated for the bid and then for the ask.
\<close>

definition MatchStep :: "Orderbook \<Rightarrow> Trades \<Rightarrow> error + (Orderbook \<times> Trades)" where
  "MatchStep s trades =
     (case bids s of
        (bidPrice, bid # bq) # bm \<Rightarrow>
          (case asks s of
             (askPrice, ask # aq) # am \<Rightarrow>
               (let quantity = min (GetRemainingQuantity (heap s bid))
                                   (GetRemainingQuantity (heap s ask))
                in case Fill (heap s bid) quantity of
                     Inl e \<Rightarrow> Inl e
                   | Inr b1 \<Rightarrow>
                       (let h1 = (heap s)(bid := b1)
                        in case Fill (h1 ask) quantity of
                             Inl e \<Rightarrow> Inl e
                           | Inr a1 \<Rightarrow>
                               (let h2 = h1(ask := a1);
                                    s1 = s\<lparr>heap := h2\<rparr>;
                                    s2 = (if IsFilled (h2 bid)
                                          then s1\<lparr>bids := (bidPrice, bq) # bm,
                                                  orders := map_erase (GetOrderId (h2 bid)) (orders s1)\<rparr>
                                          else s1);
                                    s3 = (if IsFilled (h2 ask)
                                          then s2\<lparr>asks := (askPrice, aq) # am,
                                                  orders := map_erase (GetOrderId (h2 ask)) (orders s2)\<rparr>
                                          else s2);
                                    trades1 = trades @
                                      [Trade (TradeInfo (GetOrderId (h2 bid)) (GetPrice (h2 bid)) quantity)
                                             (TradeInfo (GetOrderId (h2 ask)) (GetPrice (h2 ask)) quantity)];
                                    s4 = s3\<lparr>data := OnOrderMatched (GetPrice (h2 bid)) quantity
                                                      (IsFilled (h2 bid)) (data s3)\<rparr>;
                                    s5 = s4\<lparr>data := OnOrderMatched (GetPrice (h2 ask)) quantity
                                                      (IsFilled (h2 ask)) (data s4)\<rparr>
                                in Inr (s5, trades1))))
           | _ \<Rightarrow> Inr (s, trades))
      | _ \<Rightarrow> Inr (s, trades))"

definition front_size :: "Levels \<Rightarrow> nat" where
  "front_size lv = (case lv of [] \<Rightarrow> 0 | (_, q) # _ \<Rightarrow> length q)"

text \<open>The inner loop \<^verbatim>\<open>while (!bids.empty() && !asks.empty())\<close>.\<close>

function MatchLevel :: "Orderbook \<Rightarrow> Trades \<Rightarrow> error + (Orderbook \<times> Trades)" where
  "MatchLevel s trades =
     (if front_nonempty (bids s) \<and> front_nonempty (asks s)
      then (case MatchStep s trades of
              Inl e \<Rightarrow> Inl e
            | Inr (s1, trades1) \<Rightarrow> MatchLevel s1 trades1)
      else Inr (s, trades))"
  by pat_completeness auto
termination
proof (relation "measure (\<lambda>(s, t). front_size (bids s) + front_size (asks s))", goal_cases)
  case 1
  show ?case by simp
next
  case (2 s trades x2 s1 trades1)
  from 2(1) have "\<exists>bp bid bq bm. bids s = (bp, bid # bq) # bm"
    by (auto simp: front_nonempty_def neq_Nil_conv split: list.splits prod.splits)
  then obtain bp bid bq bm where B: "bids s = (bp, bid # bq) # bm" by blast
  from 2(1) have "\<exists>ap ask aq am. asks s = (ap, ask # aq) # am"
    by (auto simp: front_nonempty_def neq_Nil_conv split: list.splits prod.splits)
  then obtain ap ask aq am where A: "asks s = (ap, ask # aq) # am" by blast
  from 2(2,3) have "MatchStep s trades = Inr (s1, trades1)" by simp
  then have "front_size (bids s1) + front_size (asks s1)
             < front_size (bids s) + front_size (asks s)"
    unfolding MatchStep_def
    by (auto simp add: A B Let_def Fill_def IsFilled_def front_size_def min_def word_gt_0
        split: if_splits sum.splits)
  then show ?case by simp
qed

declare MatchLevel.simps [simp del]

text \<open>
  After the inner loop: \<^verbatim>\<open>if (bids.empty()) { bids_.erase(bidPrice); data_.erase(bidPrice); }\<close>
  and the same for the asks. The key is the value that \<^verbatim>\<open>bidPrice\<close> had when the pass of the
  outer loop began.
\<close>

definition erase_front_if_empty_bids :: "Price \<Rightarrow> Orderbook \<Rightarrow> Orderbook" where
  "erase_front_if_empty_bids bidPrice s =
     (if front_empty (bids s)
      then s\<lparr>bids := map_erase bidPrice (bids s), data := map_erase bidPrice (data s)\<rparr>
      else s)"

definition erase_front_if_empty_asks :: "Price \<Rightarrow> Orderbook \<Rightarrow> Orderbook" where
  "erase_front_if_empty_asks askPrice s =
     (if front_empty (asks s)
      then s\<lparr>asks := map_erase askPrice (asks s), data := map_erase askPrice (data s)\<rparr>
      else s)"

text \<open>The outer loop \<^verbatim>\<open>while (true)\<close> of \<open>MatchOrders\<close>.\<close>

function MatchLoop :: "Orderbook \<Rightarrow> Trades \<Rightarrow> error + (Orderbook \<times> Trades)" where
  "MatchLoop s trades =
     (case bids s of
        [] \<Rightarrow> Inr (s, trades)
      | (bidPrice, _) # _ \<Rightarrow>
          (case asks s of
             [] \<Rightarrow> Inr (s, trades)
           | (askPrice, _) # _ \<Rightarrow>
               if bidPrice <s askPrice then Inr (s, trades)
               else (case MatchLevel s trades of
                       Inl e \<Rightarrow> Inl e
                     | Inr (s1, trades1) \<Rightarrow>
                         MatchLoop (erase_front_if_empty_asks askPrice
                                      (erase_front_if_empty_bids bidPrice s1)) trades1)))"
  by pat_completeness auto
termination
proof (relation "measure (\<lambda>(s, t). length (bids s) + length (asks s))", goal_cases)
  case 1
  show ?case by simp
next
  case (2 s trades bidLevel bm bidPrice bq askLevel am askPrice aq x2 s1 trades1)
  have shape: "map fst (bids s') = map fst (bids s0) \<and> map fst (asks s') = map fst (asks s0)
      \<and> \<not> (front_nonempty (bids s') \<and> front_nonempty (asks s'))"
    if "MatchLevel s0 t0 = Inr (s', t')" for s0 t0 s' t'
    using that
  proof (induction s0 t0 rule: MatchLevel.induct)
    case (1 s0 t0)
    show ?case
    proof (cases "front_nonempty (bids s0) \<and> front_nonempty (asks s0)")
      case False
      with "1.prems" show ?thesis by (subst (asm) MatchLevel.simps) auto
    next
      case True
      with "1.prems" obtain s2 t2 where st: "MatchStep s0 t0 = Inr (s2, t2)"
        and rec: "MatchLevel s2 t2 = Inr (s', t')"
        by (subst (asm) MatchLevel.simps) (auto split: sum.splits)
      from st have "map fst (bids s2) = map fst (bids s0) \<and> map fst (asks s2) = map fst (asks s0)"
        unfolding MatchStep_def
        by (auto simp add: Let_def split: if_splits sum.splits list.splits prod.splits)
      with "1.IH"[OF True st refl rec] show ?thesis by simp
    qed
  qed
  from 2 have B: "bids s = (bidPrice, bq) # bm" and A: "asks s = (askPrice, aq) # am"
    and run: "MatchLevel s trades = Inr (s1, trades1)" by simp_all
  from shape[OF run] have kb: "map fst (bids s1) = map fst (bids s)"
    and ka: "map fst (asks s1) = map fst (asks s)"
    and ne: "\<not> (front_nonempty (bids s1) \<and> front_nonempty (asks s1))" by simp_all
  from kb B obtain bq1 bm1 where B1: "bids s1 = (bidPrice, bq1) # bm1" "length bm1 = length bm"
    by (cases "bids s1") (auto dest: map_eq_imp_length_eq)
  from ka A obtain aq1 am1 where A1: "asks s1 = (askPrice, aq1) # am1" "length am1 = length am"
    by (cases "asks s1") (auto dest: map_eq_imp_length_eq)
  have le: "length (map_erase k m) \<le> length m" for k and m :: Levels
    by (simp add: map_erase_def)
  from ne B1 A1 have "bq1 = [] \<or> aq1 = []"
    by (cases bq1; cases aq1) (auto simp: front_nonempty_def)
  then have "length (bids (erase_front_if_empty_asks askPrice (erase_front_if_empty_bids bidPrice s1)))
         + length (asks (erase_front_if_empty_asks askPrice (erase_front_if_empty_bids bidPrice s1)))
         < length (bids s) + length (asks s)"
    using B A B1 A1 le[of bidPrice bm1] le[of askPrice am1]
    by (auto simp: erase_front_if_empty_asks_def erase_front_if_empty_bids_def front_empty_def
        map_erase_def split: list.splits)
  then show ?case by simp
qed

declare MatchLoop.simps [simp del]

text \<open>
  The two blocks after the loop: when the front order of the first level is a fill-and-kill
  order, the public \<^verbatim>\<open>CancelOrder(order->GetOrderId())\<close> is called. \<open>MatchOrders\<close> runs
  inside \<open>AddOrder\<close>, which holds the mutex, so the call is \<open>CancelOrder_from True\<close>.
  \<^verbatim>\<open>front()\<close> of an empty queue is \<open>Undefined\<close>.
\<close>

definition CancelFrontFillAndKill :: "Orderbook \<Rightarrow> Levels \<Rightarrow> error + Orderbook" where
  "CancelFrontFillAndKill s lv =
     (case lv of
        [] \<Rightarrow> Inr s
      | (_, q) # _ \<Rightarrow>
          (case q of
             [] \<Rightarrow> Inl Undefined
           | ptr # _ \<Rightarrow>
               if GetOrderType (heap s ptr) = FillAndKill
               then CancelOrder_from True s (GetOrderId (heap s ptr))
               else Inr s))"

definition MatchOrders :: "Orderbook \<Rightarrow> error + (Trades \<times> Orderbook)" where
  "MatchOrders s =
     (case MatchLoop s [] of
        Inl e \<Rightarrow> Inl e
      | Inr (s1, trades) \<Rightarrow>
          (case CancelFrontFillAndKill s1 (bids s1) of
             Inl e \<Rightarrow> Inl e
           | Inr s2 \<Rightarrow>
               (case CancelFrontFillAndKill s2 (asks s2) of
                  Inl e \<Rightarrow> Inl e
                | Inr s3 \<Rightarrow> Inr (trades, s3))))"

subsection \<open>AddOrder, ModifyOrder, Size\<close>

text \<open>
  \<open>AddOrder\<close> takes the order that the caller built with \<^verbatim>\<open>std::make_shared<Order>\<close>;
  the object enters the store when the order is placed on the book (\<open>PlaceOrder\<close>, the
  insertion block of \<open>AddOrder\<close>). The conversion of a market order happens on the object
  before that; \<open>Rejected\<close> is its \<^verbatim>\<open>return { }\<close>. \<open>AddOrder\<close>, \<open>ModifyOrder\<close> and
  \<open>CancelOrders\<close> are the calls of the client, who does not hold the mutex: their lock is
  granted. \<open>ModifyOrder\<close> releases its lock before it calls \<open>CancelOrder\<close> and \<open>AddOrder\<close>.
\<close>

datatype 'a admission = Rejected | Admitted 'a

definition MarketToGoodTillCancel :: "Orderbook \<Rightarrow> Order \<Rightarrow> error + Order admission" where
  "MarketToGoodTillCancel s order =
     (if GetOrderType order = Market
      then (if GetSide order = Buy \<and> asks s \<noteq> []
            then (case ToGoodTillCancel order (fst (last (asks s))) of
                    Inl e \<Rightarrow> Inl e | Inr order1 \<Rightarrow> Inr (Admitted order1))
            else if GetSide order = Sell \<and> bids s \<noteq> []
            then (case ToGoodTillCancel order (fst (last (bids s))) of
                    Inl e \<Rightarrow> Inl e | Inr order1 \<Rightarrow> Inr (Admitted order1))
            else Inr Rejected)
      else Inr (Admitted order))"

definition PlaceOrder :: "Orderbook \<Rightarrow> Order \<Rightarrow> Orderbook" where
  "PlaceOrder s order =
     (let ptr = nextPointer s;
          s1 = s\<lparr>heap := (heap s)(ptr := order), nextPointer := Suc ptr\<rparr>;
          s2 = (if GetSide order = Buy
                then s1\<lparr>bids := push_back_at price_greater (GetPrice order) ptr (bids s1)\<rparr>
                else s1\<lparr>asks := push_back_at price_less (GetPrice order) ptr (asks s1)\<rparr>);
          s3 = s2\<lparr>orders := map_insert (GetOrderId order) ptr (orders s2)\<rparr>
      in s3\<lparr>data := OnOrderAdded order (data s3)\<rparr>)"

definition AddOrder :: "Orderbook \<Rightarrow> Order \<Rightarrow> error + (Trades \<times> Orderbook)" where
  "AddOrder s order0 =
     (if map_contains (orders s) (GetOrderId order0) then Inr ([], s)
      else (case MarketToGoodTillCancel s order0 of
              Inl e \<Rightarrow> Inl e
            | Inr Rejected \<Rightarrow> Inr ([], s)
            | Inr (Admitted order) \<Rightarrow>
                if GetOrderType order = FillAndKill
                   \<and> \<not> CanMatch s (GetSide order) (GetPrice order)
                then Inr ([], s)
                else if GetOrderType order = FillOrKill
                   \<and> \<not> CanFullyFill s (GetSide order) (GetPrice order) (GetInitialQuantity order)
                then Inr ([], s)
                else MatchOrders (PlaceOrder s order)))"

definition ModifyOrder :: "Orderbook \<Rightarrow> OrderModify \<Rightarrow> error + (Trades \<times> Orderbook)" where
  "ModifyOrder s order =
     (case map_of (orders s) (modOrderId order) of
        None \<Rightarrow> Inr ([], s)
      | Some existingOrder \<Rightarrow>
          (let orderType = GetOrderType (heap s existingOrder)
           in case CancelOrder s (modOrderId order) of
                Inl e \<Rightarrow> Inl e
              | Inr s1 \<Rightarrow> AddOrder s1 (ToOrderPointer order orderType)))"



section \<open>The test harness (InputHandler::ToNumber)\<close>

text \<open>
  \<^verbatim>\<open>std::from_chars\<close> for a \<^verbatim>\<open>std::int64_t\<close> in base 10: an optional minus sign, then
  the longest run of decimal digits. When there is no digit (\<^verbatim>\<open>invalid_argument\<close>) or the
  number does not fit the type (\<^verbatim>\<open>result_out_of_range\<close>), \<open>value\<close> is left as it was.
  \<open>ToNumber\<close> ignores the returned error code.
\<close>

definition is_digit :: "char \<Rightarrow> bool" where
  "is_digit c = (48 \<le> (of_char c :: nat) \<and> (of_char c :: nat) \<le> 57)"

definition digits_value :: "string \<Rightarrow> int" where
  "digits_value ds = foldl (\<lambda>n c. 10 * n + (int (of_char c) - 48)) 0 ds"

definition from_chars :: "string \<Rightarrow> int \<Rightarrow> int" where
  "from_chars str v =
     (let negative = (str \<noteq> [] \<and> hd str = CHR ''-'');
          ds = takeWhile is_digit (if negative then tl str else str);
          n = (if negative then - digits_value ds else digits_value ds)
      in if ds = [] then v
         else if n < - (2 ^ 63) \<or> 2 ^ 63 \<le> n then v
         else n)"

definition ToNumber :: "string \<Rightarrow> error + 32 word" where
  "ToNumber str =
     (let v = from_chars str 0
      in if v < 0 then Inl LogicError else Inr (word_of_int v))"

section \<open>Predicates over the book\<close>

text \<open>
  The pointers that rest on one side and on the whole book, the order of a side's keys
  under its comparator, and the states that the public operations reach from the new book.
\<close>

definition level_ptrs :: "Levels \<Rightarrow> OrderPointer list" where
  "level_ptrs lv = concat (map snd lv)"

definition book_ptrs :: "Orderbook \<Rightarrow> OrderPointer list" where
  "book_ptrs s = level_ptrs (bids s) @ level_ptrs (asks s)"

definition sorted_levels :: "(Price \<Rightarrow> Price \<Rightarrow> bool) \<Rightarrow> Levels \<Rightarrow> bool" where
  "sorted_levels lt lv = sorted_wrt lt (map fst lv)"

definition book_sorted :: "Orderbook \<Rightarrow> bool" where
  "book_sorted s = (sorted_levels price_greater (bids s) \<and> sorted_levels price_less (asks s))"

text \<open>Every bid price is below every ask price: the best bid is below the best ask.\<close>

definition uncrossed :: "Orderbook \<Rightarrow> bool" where
  "uncrossed s = (\<forall>bp \<in> fst ` set (bids s). \<forall>ap \<in> fst ` set (asks s). bp <s ap)"

inductive reachable :: "Orderbook \<Rightarrow> bool" where
  new_book: "reachable emptyBook"
| after_add: "reachable s \<Longrightarrow> AddOrder s order = Inr (trades, s') \<Longrightarrow> reachable s'"
| after_cancel: "reachable s \<Longrightarrow> CancelOrder s orderId = Inr s' \<Longrightarrow> reachable s'"
| after_modify: "reachable s \<Longrightarrow> ModifyOrder s m = Inr (trades, s') \<Longrightarrow> reachable s'"
| after_cancel_many: "reachable s \<Longrightarrow> CancelOrders s orderIds = Inr s' \<Longrightarrow> reachable s'"

text \<open>
  Two books used as concrete inputs: after \<^verbatim>\<open>A B GoodTillCancel 100 10 1\<close>, and after
  \<^verbatim>\<open>A S GoodTillCancel 101 5 2\<close> on top of it.
\<close>

definition book_bid :: Orderbook where
  "book_bid = snd (projr (AddOrder emptyBook (mkOrder GoodTillCancel 1 Buy 100 10)))"

definition book_bid_ask :: Orderbook where
  "book_bid_ask = snd (projr (AddOrder book_bid (mkOrder GoodTillCancel 2 Sell 101 5)))"

text \<open>
  The words of the claim about \<open>CanFullyFill\<close>: a price is in reach of a buy at \<open>limit\<close> when
  it lies between the best ask and the limit, and of a sell when it lies between the limit
  and the best bid; \<open>quantity_in_reach\<close> adds the quantities of the entries of \<open>data\<close> at
  the prices in reach, as natural numbers.
\<close>

definition in_reach :: "Side \<Rightarrow> Price \<Rightarrow> Price \<Rightarrow> Price \<Rightarrow> bool" where
  "in_reach sd best limit p =
     (if sd = Buy then best \<le>s p \<and> p \<le>s limit else limit \<le>s p \<and> p \<le>s best)"

definition best_opposite :: "Orderbook \<Rightarrow> Side \<Rightarrow> Price" where
  "best_opposite s sd = fst (hd (if sd = Buy then asks s else bids s))"

definition entries_in_reach :: "Orderbook \<Rightarrow> Side \<Rightarrow> Price \<Rightarrow> (Price \<times> LevelData) list" where
  "entries_in_reach s sd limit =
     filter (\<lambda>e. in_reach sd (best_opposite s sd) limit (fst e)) (data s)"

definition quantity_in_reach :: "Orderbook \<Rightarrow> Side \<Rightarrow> Price \<Rightarrow> nat" where
  "quantity_in_reach s sd limit =
     sum_list (map (\<lambda>e. unat (levelQuantity (snd e))) (entries_in_reach s sd limit))"

text \<open>
  The book after \<^verbatim>\<open>A B GoodTillCancel 100 10 1\<close> and \<^verbatim>\<open>A S GoodTillCancel 100 5 2\<close>: the
  sell trades 5 against the bid at the same price.
\<close>

definition book_same_price :: Orderbook where
  "book_same_price = snd (projr (AddOrder book_bid (mkOrder GoodTillCancel 2 Sell 100 5)))"

text \<open>The words of the claim about \<open>ModifyOrder\<close>: a cancel followed by an add.\<close>

definition cancel_then_add ::
    "Orderbook \<Rightarrow> OrderId \<Rightarrow> OrderType \<Rightarrow> Side \<Rightarrow> Price \<Rightarrow> Quantity \<Rightarrow> error + (Trades \<times> Orderbook)" where
  "cancel_then_add s orderId t sd p q =
     (case CancelOrder s orderId of
        Inl e \<Rightarrow> Inl e
      | Inr s1 \<Rightarrow> AddOrder s1 (mkOrder t orderId sd p q))"





text \<open>
  The structure that the public operations maintain. \<open>level_ok\<close>: an order rests on its own
  side at the level of its own price. \<open>index_ok\<close>: \<open>orders\<close> maps exactly the ids of the
  resting orders, each to its pointer. \<open>wf_book\<close> adds that the sides are ordered, that no
  pointer rests twice, and that the resting pointers have been handed out.
\<close>

definition level_ok :: "(OrderPointer \<Rightarrow> Order) \<Rightarrow> Side \<Rightarrow> Levels \<Rightarrow> bool" where
  "level_ok h sd lv =
     (\<forall>pq \<in> set lv. \<forall>a \<in> set (snd pq). GetSide (h a) = sd \<and> GetPrice (h a) = fst pq)"

definition index_ok :: "Orderbook \<Rightarrow> bool" where
  "index_ok s =
     ((\<forall>i a. map_of (orders s) i = Some a \<longrightarrow>
          a \<in> set (book_ptrs s) \<and> GetOrderId (heap s a) = i)
      \<and> (\<forall>a \<in> set (book_ptrs s). map_of (orders s) (GetOrderId (heap s a)) = Some a))"

definition no_empty_level :: "Levels \<Rightarrow> bool" where
  "no_empty_level lv = (\<forall>pq \<in> set lv. snd pq \<noteq> [])"

definition wf_book :: "Orderbook \<Rightarrow> bool" where
  "wf_book s =
     (book_sorted s \<and> distinct (level_ptrs (bids s)) \<and> distinct (level_ptrs (asks s))
      \<and> (\<forall>a \<in> set (book_ptrs s). a < nextPointer s)
      \<and> level_ok (heap s) Buy (bids s) \<and> level_ok (heap s) Sell (asks s) \<and> index_ok s)"

definition no_FillAndKill :: "Orderbook \<Rightarrow> bool" where
  "no_FillAndKill s = (\<forall>a \<in> set (book_ptrs s). GetOrderType (heap s a) \<noteq> FillAndKill)"

text \<open>Two stores that agree on the fields of an order that a fill does not change.\<close>

definition static_eq :: "(OrderPointer \<Rightarrow> Order) \<Rightarrow> (OrderPointer \<Rightarrow> Order) \<Rightarrow> bool" where
  "static_eq h h' =
     (\<forall>a. GetOrderId (h' a) = GetOrderId (h a) \<and> GetSide (h' a) = GetSide (h a)
          \<and> GetPrice (h' a) = GetPrice (h a) \<and> GetOrderType (h' a) = GetOrderType (h a))"

text \<open>
  \<open>shrinks s s'\<close>: from \<open>s\<close> to \<open>s'\<close> pointers only leave the book and orders are only
  filled. \<open>at_front ptr s\<close>: the order at \<open>ptr\<close> is the front order of the first level of
  a side.
\<close>

definition shrinks :: "Orderbook \<Rightarrow> Orderbook \<Rightarrow> bool" where
  "shrinks s s' =
     (set (book_ptrs s') \<subseteq> set (book_ptrs s) \<and> static_eq (heap s) (heap s')
      \<and> nextPointer s' = nextPointer s)"

definition at_front :: "OrderPointer \<Rightarrow> Orderbook \<Rightarrow> bool" where
  "at_front ptr s =
     ((\<exists>p q m. bids s = (p, ptr # q) # m) \<or> (\<exists>p q m. asks s = (p, ptr # q) # m))"

definition front_or_gone :: "OrderPointer \<Rightarrow> Orderbook \<Rightarrow> bool" where
  "front_or_gone ptr s = (at_front ptr s \<or> ptr \<notin> set (book_ptrs s))"

definition others_not_FillAndKill :: "OrderPointer \<Rightarrow> Orderbook \<Rightarrow> bool" where
  "others_not_FillAndKill ptr s =
     (\<forall>a \<in> set (book_ptrs s). a \<noteq> ptr \<longrightarrow> GetOrderType (heap s a) \<noteq> FillAndKill)"

text \<open>The invariant of the reachable states.\<close>

definition book_inv :: "Orderbook \<Rightarrow> bool" where
  "book_inv s =
     (wf_book s \<and> no_empty_level (bids s) \<and> no_empty_level (asks s)
      \<and> no_FillAndKill s \<and> uncrossed s)"

text \<open>
  Concrete inputs: a fill-and-kill sell of 15 at 100, and a good-till-cancel bid (or ask)
  of quantity 0 at 100 resting alone on the book.
\<close>

definition fak_sell :: Order where
  "fak_sell = mkOrder FillAndKill 2 Sell 100 15"





section \<open>The containers and the loops\<close>

lemma CancelOrder_eq: "CancelOrder s orderId = CancelOrderInternal s orderId"
  by (simp add: CancelOrder_def CancelOrder_from_def scoped_lock_def)

lemma map_of_map_erase: "map_of (map_erase k m) k' = (if k' = k then None else map_of m k')"
  by (induction m) (auto simp: map_erase_def)

lemma map_of_map_assign:
  "map_of (map_assign k v m) k' = (if k' = k \<and> map_of m k \<noteq> None then Some v else map_of m k')"
  by (induction m) (auto simp: map_assign_def)

lemma keys_map_assign: "map fst (map_assign k v m) = map fst m"
  by (induction m) (auto simp: map_assign_def)

lemma keys_map_erase: "map fst (map_erase k m) = filter (\<lambda>x. x \<noteq> k) (map fst m)"
  by (induction m) (auto simp: map_erase_def)

lemma keyset_map_assign: "fst ` set (map_assign k v m) = fst ` set m"
  using keys_map_assign[of k v m] by (metis list.set_map)

lemma keyset_map_erase: "fst ` set (map_erase k m) = fst ` set m - {k}"
  by (auto simp: map_erase_def)

lemma keys_push_back_at: "set (map fst (push_back_at lt k a lv)) = insert k (set (map fst lv))"
  by (induction lt k a lv rule: push_back_at.induct) auto

lemma sorted_push_back_at:
  assumes tr: "\<And>a b c. lt a b \<Longrightarrow> lt b c \<Longrightarrow> lt a c"
    and tot: "\<And>a b. a \<noteq> b \<Longrightarrow> \<not> lt a b \<Longrightarrow> lt b a"
  shows "sorted_levels lt lv \<Longrightarrow> sorted_levels lt (push_back_at lt k a lv)"
proof (induction lv)
  case Nil
  then show ?case by (simp add: sorted_levels_def)
next
  case (Cons x lv)
  obtain p q where x: "x = (p, q)" by (cases x)
  from Cons.prems have ps: "\<forall>y \<in> set (map fst lv). lt p y" and s: "sorted_levels lt lv"
    by (simp_all add: sorted_levels_def x)
  show ?case
  proof (cases "k = p")
    case True
    with Cons.prems show ?thesis by (simp add: sorted_levels_def x)
  next
    case False
    show ?thesis
    proof (cases "lt k p")
      case True
      with ps tr have "\<forall>y \<in> set (map fst lv). lt k y" by blast
      with True \<open>k \<noteq> p\<close> Cons.prems show ?thesis by (simp add: sorted_levels_def x)
    next
      case nlt: False
      with False tot have "lt p k" by blast
      with ps have "\<forall>y \<in> set (map fst (push_back_at lt k a lv)). lt p y"
        by (simp only: keys_push_back_at) blast
      with nlt False Cons.IH[OF s] show ?thesis by (simp add: sorted_levels_def x)
    qed
  qed
qed

lemma sorted_push_back_at_asks:
  "sorted_levels price_less lv \<Longrightarrow> sorted_levels price_less (push_back_at price_less k a lv)"
  by (rule sorted_push_back_at) (auto simp: price_less_def)

lemma sorted_push_back_at_bids:
  "sorted_levels price_greater lv \<Longrightarrow> sorted_levels price_greater (push_back_at price_greater k a lv)"
  by (rule sorted_push_back_at) (auto simp: price_greater_def)

lemma sorted_map_erase: "sorted_levels lt lv \<Longrightarrow> sorted_levels lt (map_erase k lv)"
  by (simp add: sorted_levels_def keys_map_erase sorted_wrt_filter)

lemma sorted_map_assign: "sorted_levels lt lv \<Longrightarrow> sorted_levels lt (map_assign k v lv)"
  by (simp add: sorted_levels_def keys_map_assign)

lemma erase_from_level_Inr:
  "erase_from_level p ptr lv = Inr lv' \<longleftrightarrow>
   (\<exists>q. map_of lv p = Some q \<and> ptr \<in> set q
        \<and> lv' = (if remove1 ptr q = [] then map_erase p lv
                   else map_assign p (remove1 ptr q) lv))"
  by (auto simp: erase_from_level_def Let_def split: option.splits if_splits)

lemma erase_from_level_keys:
  assumes "erase_from_level p ptr lv = Inr lv'"
  shows "fst ` set lv' \<subseteq> fst ` set lv" and "sorted_levels lt lv \<Longrightarrow> sorted_levels lt lv'"
proof -
  from assms obtain q where
    lv': "lv' = (if remove1 ptr q = [] then map_erase p lv else map_assign p (remove1 ptr q) lv)"
    unfolding erase_from_level_Inr by blast
  show "fst ` set lv' \<subseteq> fst ` set lv"
    unfolding lv' by (simp add: keyset_map_erase keyset_map_assign)
  show "sorted_levels lt lv \<Longrightarrow> sorted_levels lt lv'"
    unfolding lv' by (simp add: sorted_map_erase sorted_map_assign)
qed

lemma MatchLevel_stop:
  "\<not> (front_nonempty (bids s) \<and> front_nonempty (asks s)) \<Longrightarrow> MatchLevel s t = Inr (s, t)"
  by (subst MatchLevel.simps) auto

lemma MatchLevel_step:
  "front_nonempty (bids s) \<Longrightarrow> front_nonempty (asks s) \<Longrightarrow>
   MatchLevel s t = (case MatchStep s t of Inl e \<Rightarrow> Inl e | Inr (s1, t1) \<Rightarrow> MatchLevel s1 t1)"
  by (simp add: MatchLevel.simps[of s t])

lemma MatchLevel_induct [consumes 1, case_names stop step]:
  assumes run: "MatchLevel s t = Inr (s', t')"
    and stop: "\<And>s t. \<not> (front_nonempty (bids s) \<and> front_nonempty (asks s)) \<Longrightarrow> P s t s t"
    and step: "\<And>s t s1 t1 s' t'.
        front_nonempty (bids s) \<Longrightarrow> front_nonempty (asks s) \<Longrightarrow>
        MatchStep s t = Inr (s1, t1) \<Longrightarrow> MatchLevel s1 t1 = Inr (s', t') \<Longrightarrow>
        P s1 t1 s' t' \<Longrightarrow> P s t s' t'"
  shows "P s t s' t'"
  using run
proof (induction s t rule: MatchLevel.induct)
  case (1 s trades)
  show ?case
  proof (cases "front_nonempty (bids s) \<and> front_nonempty (asks s)")
    case False
    with "1.prems" have "s' = s" "t' = trades" by (simp_all add: MatchLevel_stop)
    with False stop show ?thesis by simp
  next
    case True
    with "1.prems" obtain s2 t2 where st: "MatchStep s trades = Inr (s2, t2)"
      and rec: "MatchLevel s2 t2 = Inr (s', t')"
      by (auto simp: MatchLevel_step split: sum.splits)
    from "1.IH"[OF True st refl rec] have "P s2 t2 s' t'" .
    with True st rec step show ?thesis by blast
  qed
qed

lemma MatchStep_keys:
  "MatchStep s t = Inr (s1, t1) \<Longrightarrow>
   map fst (bids s1) = map fst (bids s) \<and> map fst (asks s1) = map fst (asks s)"
  unfolding MatchStep_def
  by (auto simp add: Let_def split: if_splits sum.splits list.splits prod.splits)

lemma MatchLevel_shape:
  "MatchLevel s t = Inr (s1, t1) \<Longrightarrow>
   map fst (bids s1) = map fst (bids s) \<and> map fst (asks s1) = map fst (asks s)
   \<and> \<not> (front_nonempty (bids s1) \<and> front_nonempty (asks s1))"
proof (induction rule: MatchLevel_induct)
  case (stop s t)
  then show ?case by simp
next
  case (step s t s1 t1 s' t')
  then show ?case using MatchStep_keys by metis
qed

lemma MatchLoop_stop:
  "bids s = [] \<or> asks s = [] \<or> fst (hd (bids s)) <s fst (hd (asks s)) \<Longrightarrow>
   MatchLoop s t = Inr (s, t)"
  by (subst MatchLoop.simps) (auto split: list.splits)

lemma MatchLoop_pass:
  "bids s = (bp, bq) # bm \<Longrightarrow> asks s = (ap, aq) # am \<Longrightarrow> \<not> bp <s ap \<Longrightarrow>
   MatchLoop s t =
     (case MatchLevel s t of
        Inl e \<Rightarrow> Inl e
      | Inr (s1, t1) \<Rightarrow>
          MatchLoop (erase_front_if_empty_asks ap (erase_front_if_empty_bids bp s1)) t1)"
  by (subst MatchLoop.simps) simp

lemma MatchLoop_induct [consumes 1, case_names stop pass]:
  assumes run: "MatchLoop s t = Inr (s', t')"
    and stop: "\<And>s t. bids s = [] \<or> asks s = [] \<or> fst (hd (bids s)) <s fst (hd (asks s))
        \<Longrightarrow> P s t s t"
    and pass: "\<And>s t bp bq bm ap aq am s1 t1 s' t'.
        bids s = (bp, bq) # bm \<Longrightarrow> asks s = (ap, aq) # am \<Longrightarrow> \<not> bp <s ap \<Longrightarrow>
        MatchLevel s t = Inr (s1, t1) \<Longrightarrow>
        MatchLoop (erase_front_if_empty_asks ap (erase_front_if_empty_bids bp s1)) t1 = Inr (s', t') \<Longrightarrow>
        P (erase_front_if_empty_asks ap (erase_front_if_empty_bids bp s1)) t1 s' t' \<Longrightarrow>
        P s t s' t'"
  shows "P s t s' t'"
  using run
proof (induction s t rule: MatchLoop.induct)
  case (1 s trades)
  show ?case
  proof (cases "bids s = [] \<or> asks s = [] \<or> fst (hd (bids s)) <s fst (hd (asks s))")
    case True
    with "1.prems" have "s' = s" "t' = trades" by (simp_all add: MatchLoop_stop)
    with True stop show ?thesis by simp
  next
    case False
    then obtain bp bq bm ap aq am where B: "bids s = (bp, bq) # bm"
      and A: "asks s = (ap, aq) # am" and X: "\<not> bp <s ap"
      by (cases "bids s"; cases "asks s") auto
    with "1.prems" obtain s1 t1 where lev: "MatchLevel s trades = Inr (s1, t1)"
      and rec: "MatchLoop (erase_front_if_empty_asks ap (erase_front_if_empty_bids bp s1)) t1
                = Inr (s', t')"
      by (auto simp: MatchLoop_pass split: sum.splits)
    from "1.IH"[OF B refl A refl X lev refl rec]
    have "P (erase_front_if_empty_asks ap (erase_front_if_empty_bids bp s1)) t1 s' t'" .
    with B A X lev rec pass show ?thesis by blast
  qed
qed

section \<open>The sides stay ordered and do not cross\<close>

lemma erase_front_keys:
  "fst ` set (bids (erase_front_if_empty_bids p s)) \<subseteq> fst ` set (bids s)"
  "asks (erase_front_if_empty_bids p s) = asks s"
  "fst ` set (asks (erase_front_if_empty_asks p s)) \<subseteq> fst ` set (asks s)"
  "bids (erase_front_if_empty_asks p s) = bids s"
  by (auto simp: erase_front_if_empty_bids_def erase_front_if_empty_asks_def map_erase_def)

lemma erase_front_sorted:
  "book_sorted s \<Longrightarrow> book_sorted (erase_front_if_empty_bids p s)"
  "book_sorted s \<Longrightarrow> book_sorted (erase_front_if_empty_asks p s)"
  by (auto simp: erase_front_if_empty_bids_def erase_front_if_empty_asks_def book_sorted_def
      sorted_map_erase)

lemma MatchLevel_keys:
  "MatchLevel s t = Inr (s1, t1) \<Longrightarrow>
   map fst (bids s1) = map fst (bids s) \<and> map fst (asks s1) = map fst (asks s)"
  using MatchLevel_shape by blast

lemma keys_eq_sorted:
  "map fst lv' = map fst lv \<Longrightarrow> sorted_levels lt lv \<Longrightarrow> sorted_levels lt lv'"
  by (simp add: sorted_levels_def)

lemma keys_eq_keyset: "map fst lv' = map fst lv \<Longrightarrow> fst ` set lv' = fst ` set lv"
  by (metis list.set_map)

lemma sorted_front_bids:
  "sorted_levels price_greater ((bp, bq) # bm) \<Longrightarrow> x \<in> fst ` set ((bp, bq) # bm) \<Longrightarrow> x \<le>s bp"
  by (auto simp: sorted_levels_def price_greater_def)

lemma sorted_front_asks:
  "sorted_levels price_less ((ap, aq) # am) \<Longrightarrow> x \<in> fst ` set ((ap, aq) # am) \<Longrightarrow> ap \<le>s x"
  by (auto simp: sorted_levels_def price_less_def)

lemma uncrossed_at_stop:
  assumes "book_sorted s"
    and "bids s = [] \<or> asks s = [] \<or> fst (hd (bids s)) <s fst (hd (asks s))"
  shows "uncrossed s"
proof (cases "bids s = [] \<or> asks s = []")
  case True
  then show ?thesis by (auto simp: uncrossed_def)
next
  case False
  then obtain bp bq bm ap aq am where B: "bids s = (bp, bq) # bm" and A: "asks s = (ap, aq) # am"
    by (cases "bids s"; cases "asks s") auto
  with assms(2) have lt: "bp <s ap" by simp
  have "x <s y" if "x \<in> fst ` set (bids s)" "y \<in> fst ` set (asks s)" for x y
  proof -
    from that assms(1) have "x \<le>s bp" "ap \<le>s y"
      using sorted_front_bids[of bp bq bm x] sorted_front_asks[of ap aq am y]
      by (simp_all add: book_sorted_def B A)
    with lt show ?thesis
      using signed.le_less_trans signed.less_le_trans by blast
  qed
  then show ?thesis by (simp add: uncrossed_def)
qed

lemma MatchLoop_sorted_uncrossed:
  "MatchLoop s t = Inr (s', t') \<Longrightarrow> book_sorted s \<Longrightarrow> book_sorted s' \<and> uncrossed s'"
proof (induction rule: MatchLoop_induct)
  case (stop s t)
  then show ?case by (simp add: uncrossed_at_stop)
next
  case (pass s t bp bq bm ap aq am s1 t1 s' t')
  from MatchLevel_keys[OF pass.hyps(4)] pass.prems have "book_sorted s1"
    by (auto simp: book_sorted_def intro: keys_eq_sorted)
  then show ?case by (intro pass.IH erase_front_sorted)
qed

lemma CancelOrderInternal_cases [consumes 1, case_names absent sell buy]:
  assumes "CancelOrderInternal s orderId = Inr s'"
  obtains "map_of (orders s) orderId = None" "s' = s"
  | ptr lv where "map_of (orders s) orderId = Some ptr" "GetSide (heap s ptr) = Sell"
      "erase_from_level (GetPrice (heap s ptr)) ptr (asks s) = Inr lv"
      "s' = s\<lparr>orders := map_erase orderId (orders s), asks := lv,
                data := OnOrderCancelled (heap s ptr) (data s)\<rparr>"
  | ptr lv where "map_of (orders s) orderId = Some ptr" "GetSide (heap s ptr) = Buy"
      "erase_from_level (GetPrice (heap s ptr)) ptr (bids s) = Inr lv"
      "s' = s\<lparr>orders := map_erase orderId (orders s), bids := lv,
                data := OnOrderCancelled (heap s ptr) (data s)\<rparr>"
proof (cases "map_of (orders s) orderId")
  case None
  with assms have "s' = s" by (simp add: CancelOrderInternal_def)
  with None that(1) show ?thesis by blast
next
  case (Some ptr)
  show ?thesis
  proof (cases "GetSide (heap s ptr)")
    case Sell
    with Some assms obtain lv where
      "erase_from_level (GetPrice (heap s ptr)) ptr (asks s) = Inr lv"
      "s' = s\<lparr>orders := map_erase orderId (orders s), asks := lv,
                data := OnOrderCancelled (heap s ptr) (data s)\<rparr>"
      by (simp add: CancelOrderInternal_def Let_def split: sum.splits)
    with Some Sell that(2) show ?thesis by blast
  next
    case Buy
    with Some assms obtain lv where
      "erase_from_level (GetPrice (heap s ptr)) ptr (bids s) = Inr lv"
      "s' = s\<lparr>orders := map_erase orderId (orders s), bids := lv,
                data := OnOrderCancelled (heap s ptr) (data s)\<rparr>"
      by (simp add: CancelOrderInternal_def Let_def split: sum.splits)
    with Some Buy that(3) show ?thesis by blast
  qed
qed

lemma CancelOrderInternal_keys:
  assumes "CancelOrderInternal s orderId = Inr s'"
  shows "fst ` set (bids s') \<subseteq> fst ` set (bids s)" and "fst ` set (asks s') \<subseteq> fst ` set (asks s)"
    and "book_sorted s \<Longrightarrow> book_sorted s'"
  using assms
proof (atomize (full), cases rule: CancelOrderInternal_cases)
  case absent
  then show "fst ` set (bids s') \<subseteq> fst ` set (bids s) \<and> fst ` set (asks s') \<subseteq> fst ` set (asks s)
      \<and> (book_sorted s \<longrightarrow> book_sorted s')" by simp
next
  case (sell ptr lv)
  then show "fst ` set (bids s') \<subseteq> fst ` set (bids s) \<and> fst ` set (asks s') \<subseteq> fst ` set (asks s)
      \<and> (book_sorted s \<longrightarrow> book_sorted s')"
    using erase_from_level_keys[OF sell(3)] by (simp add: book_sorted_def)
next
  case (buy ptr lv)
  then show "fst ` set (bids s') \<subseteq> fst ` set (bids s) \<and> fst ` set (asks s') \<subseteq> fst ` set (asks s)
      \<and> (book_sorted s \<longrightarrow> book_sorted s')"
    using erase_from_level_keys[OF buy(3)] by (simp add: book_sorted_def)
qed

lemma CancelOrderInternal_uncrossed:
  "CancelOrderInternal s orderId = Inr s' \<Longrightarrow> uncrossed s \<Longrightarrow> uncrossed s'"
  using CancelOrderInternal_keys(1,2)[of s orderId s'] unfolding uncrossed_def by blast

lemma CancelFrontFillAndKill_sorted_uncrossed:
  "CancelFrontFillAndKill s lv = Inr s' \<Longrightarrow> book_sorted s \<and> uncrossed s \<Longrightarrow>
   book_sorted s' \<and> uncrossed s'"
  unfolding CancelFrontFillAndKill_def CancelOrder_from_def scoped_lock_def
  by (auto split: list.splits if_splits)

lemma PlaceOrder_bids:
  "bids (PlaceOrder s order) =
     (if GetSide order = Buy
      then push_back_at price_greater (GetPrice order) (nextPointer s) (bids s) else bids s)"
  by (simp add: PlaceOrder_def Let_def)

lemma PlaceOrder_asks:
  "asks (PlaceOrder s order) =
     (if GetSide order = Buy then asks s
      else push_back_at price_less (GetPrice order) (nextPointer s) (asks s))"
  by (simp add: PlaceOrder_def Let_def)

lemma PlaceOrder_sorted: "book_sorted s \<Longrightarrow> book_sorted (PlaceOrder s order)"
  by (simp add: book_sorted_def PlaceOrder_bids PlaceOrder_asks sorted_push_back_at_asks
      sorted_push_back_at_bids)

lemma MatchOrders_sorted_uncrossed:
  assumes "MatchOrders s = Inr (trades, s')" and "book_sorted s"
  shows "book_sorted s' \<and> uncrossed s'"
proof -
  from assms(1) obtain s1 s2 where 1: "MatchLoop s [] = Inr (s1, trades)"
    and 2: "CancelFrontFillAndKill s1 (bids s1) = Inr s2"
    and 3: "CancelFrontFillAndKill s2 (asks s2) = Inr s'"
    unfolding MatchOrders_def by (auto split: sum.splits)
  from MatchLoop_sorted_uncrossed[OF 1 assms(2)]
  show ?thesis
    using CancelFrontFillAndKill_sorted_uncrossed[OF 2] CancelFrontFillAndKill_sorted_uncrossed[OF 3]
    by blast
qed

lemma AddOrder_sorted_uncrossed:
  assumes "AddOrder s order = Inr (trades, s')" and "book_sorted s" and "uncrossed s"
  shows "book_sorted s' \<and> uncrossed s'"
proof (cases "s' = s")
  case True
  with assms show ?thesis by simp
next
  case False
  with assms(1) obtain order1 where "MatchOrders (PlaceOrder s order1) = Inr (trades, s')"
    unfolding AddOrder_def by (auto split: if_splits sum.splits admission.splits)
  then show ?thesis using MatchOrders_sorted_uncrossed PlaceOrder_sorted assms(2) by blast
qed

lemma CancelOrders_sorted_uncrossed:
  "CancelOrders s orderIds = Inr s' \<Longrightarrow> book_sorted s \<and> uncrossed s \<Longrightarrow>
   book_sorted s' \<and> uncrossed s'"
proof (induction orderIds arbitrary: s)
  case Nil
  then show ?case by simp
next
  case (Cons orderId orderIds)
  from Cons.prems(1) obtain s1 where 1: "CancelOrderInternal s orderId = Inr s1"
    and 2: "CancelOrders s1 orderIds = Inr s'"
    by (auto split: sum.splits)
  from 1 Cons.prems(2) have "book_sorted s1 \<and> uncrossed s1"
    using CancelOrderInternal_keys(3) CancelOrderInternal_uncrossed by blast
  with Cons.IH[OF 2] show ?case .
qed

lemma ModifyOrder_sorted_uncrossed:
  assumes "ModifyOrder s m = Inr (trades, s')" and "book_sorted s" and "uncrossed s"
  shows "book_sorted s' \<and> uncrossed s'"
proof (cases "map_of (orders s) (modOrderId m)")
  case None
  with assms show ?thesis by (simp add: ModifyOrder_def)
next
  case (Some ptr)
  with assms(1) obtain s1 where 1: "CancelOrderInternal s (modOrderId m) = Inr s1"
    and 2: "AddOrder s1 (ToOrderPointer m (GetOrderType (heap s ptr))) = Inr (trades, s')"
    by (auto simp: ModifyOrder_def CancelOrder_eq Let_def split: sum.splits)
  from 1 assms(2,3) have "book_sorted s1" "uncrossed s1"
    using CancelOrderInternal_keys(3) CancelOrderInternal_uncrossed by blast+
  with 2 show ?thesis by (rule AddOrder_sorted_uncrossed)
qed

lemma reachable_sorted_uncrossed: "reachable s \<Longrightarrow> book_sorted s \<and> uncrossed s"
proof (induction rule: reachable.induct)
  case new_book
  show ?case by (simp add: emptyBook_def book_sorted_def sorted_levels_def uncrossed_def)
next
  case (after_add s order trades s')
  then show ?case using AddOrder_sorted_uncrossed by blast
next
  case (after_cancel s orderId s')
  then show ?case
    using CancelOrderInternal_keys(3) CancelOrderInternal_uncrossed unfolding CancelOrder_eq by blast
next
  case (after_modify s m trades s')
  then show ?case using ModifyOrder_sorted_uncrossed by blast
next
  case (after_cancel_many s orderIds s')
  then show ?case using CancelOrders_sorted_uncrossed by blast
qed

lemma Inr_projr: "(case x of Inl e \<Rightarrow> False | Inr r \<Rightarrow> True) \<Longrightarrow> x = Inr (fst (projr x), snd (projr x))"
  by (cases x) auto

lemma reachable_book_bid: "reachable book_bid"
proof -
  have "case AddOrder emptyBook (mkOrder GoodTillCancel 1 Buy 100 10) of
          Inl e \<Rightarrow> False | Inr r \<Rightarrow> True"
    by code_simp
  from Inr_projr[OF this] show ?thesis
    unfolding book_bid_def by (rule after_add[OF new_book])
qed

lemma reachable_book_bid_ask: "reachable book_bid_ask"
proof -
  have "case AddOrder book_bid (mkOrder GoodTillCancel 2 Sell 101 5) of
          Inl e \<Rightarrow> False | Inr r \<Rightarrow> True"
    by code_simp
  from Inr_projr[OF this] show ?thesis
    unfolding book_bid_ask_def by (rule after_add[OF reachable_book_bid])
qed

text \<open>
  C4. In every state that the public operations reach from the new book, when both sides
  are non-empty the first bid level is the highest bid, the first ask level is the lowest
  ask, and the best bid is strictly below the best ask.
\<close>

theorem best_bid_below_best_ask:
  assumes "reachable s" and "bids s \<noteq> []" and "asks s \<noteq> []"
  shows "fst (hd (bids s)) <s fst (hd (asks s))
         \<and> (\<forall>bp \<in> fst ` set (bids s). bp \<le>s fst (hd (bids s)))
         \<and> (\<forall>ap \<in> fst ` set (asks s). fst (hd (asks s)) \<le>s ap)"
proof -
  from assms(1) have srt: "book_sorted s" and unc: "uncrossed s"
    using reachable_sorted_uncrossed by blast+
  from assms(2,3) obtain bp bq bm ap aq am where B: "bids s = (bp, bq) # bm"
    and A: "asks s = (ap, aq) # am"
    by (cases "bids s"; cases "asks s") auto
  from unc have "bp <s ap" by (simp add: uncrossed_def B A)
  moreover from srt have "\<forall>x \<in> fst ` set (bids s). x \<le>s bp"
    using sorted_front_bids[of bp bq bm] by (simp add: book_sorted_def B)
  moreover from srt have "\<forall>x \<in> fst ` set (asks s). ap \<le>s x"
    using sorted_front_asks[of ap aq am] by (simp add: book_sorted_def A)
  ultimately show ?thesis by (simp add: B A)
qed

theorem best_bid_below_best_ask_witness:
  "reachable book_bid_ask \<and> bids book_bid_ask = [(100, [0])] \<and> asks book_bid_ask = [(101, [1])]
   \<and> fst (hd (bids book_bid_ask)) <s fst (hd (asks book_bid_ask))"
proof -
  have b: "bids book_bid_ask = [(100, [0])]" and a: "asks book_bid_ask = [(101, [1])]"
    by code_simp+
  from b a have "bids book_bid_ask \<noteq> []" "asks book_bid_ask \<noteq> []" by simp_all
  from best_bid_below_best_ask[OF reachable_book_bid_ask this] reachable_book_bid_ask b a
  show ?thesis by blast
qed

section \<open>The fill-or-kill gate\<close>

lemma CanFullyFill_loop_iff:
  "CanFullyFill_loop sd threshold limit q dt \<longleftrightarrow>
   filter (\<lambda>e. in_reach sd threshold limit (fst e)) dt \<noteq> []
   \<and> unat q \<le> sum_list (map (\<lambda>e. unat (levelQuantity (snd e)))
                      (filter (\<lambda>e. in_reach sd threshold limit (fst e)) dt))"
proof (induction dt arbitrary: q)
  case Nil
  show ?case by simp
next
  case (Cons e dt)
  obtain lp ld where e: "e = (lp, ld)" by (cases e)
  let ?R = "\<lambda>e. in_reach sd threshold limit (fst e)"
  let ?S = "\<lambda>xs. sum_list (map (\<lambda>e. unat (levelQuantity (snd e))) (filter ?R xs))"
  have skip: "((sd = Buy \<and> lp <s threshold) \<or> (sd = Sell \<and> threshold <s lp)
               \<or> (sd = Buy \<and> limit <s lp) \<or> (sd = Sell \<and> lp <s limit)) \<longleftrightarrow> \<not> ?R (lp, ld)"
    by (cases sd) (auto simp: in_reach_def signed.not_less)
  show ?case
  proof (cases "?R (lp, ld)")
    case False
    with skip have "CanFullyFill_loop sd threshold limit q (e # dt)
                    = CanFullyFill_loop sd threshold limit q dt"
      unfolding e by auto
    with False Cons.IH[of q] show ?thesis by (simp add: e)
  next
    case True
    with skip have step: "CanFullyFill_loop sd threshold limit q (e # dt)
        = (if q \<le> levelQuantity ld then True
           else CanFullyFill_loop sd threshold limit (q - levelQuantity ld) dt)"
      unfolding e by auto
    show ?thesis
    proof (cases "q \<le> levelQuantity ld")
      case le: True
      then have "unat q \<le> unat (levelQuantity ld)" by (simp add: word_le_nat_alt)
      with True le step show ?thesis by (simp add: e)
    next
      case gt: False
      then have lt: "unat (levelQuantity ld) < unat q" by (simp add: word_le_nat_alt)
      then have sub: "unat (q - levelQuantity ld) = unat q - unat (levelQuantity ld)"
        by (simp add: unat_sub word_le_nat_alt)
      have "filter ?R dt \<noteq> []" if "unat q - unat (levelQuantity ld) \<le> ?S dt"
      proof
        assume "filter ?R dt = []"
        with that lt show False by simp
      qed
      with gt step True Cons.IH[of "q - levelQuantity ld"] sub lt show ?thesis
        by (auto simp: e)
    qed
  qed
qed

lemma CanFullyFill_iff:
  "CanFullyFill s sd limit q \<longleftrightarrow>
   CanMatch s sd limit \<and> entries_in_reach s sd limit \<noteq> []
   \<and> unat q \<le> quantity_in_reach s sd limit"
proof (cases "CanMatch s sd limit")
  case False
  then show ?thesis by (simp add: CanFullyFill_def)
next
  case True
  then have "(if sd = Buy then asks s else bids s) \<noteq> []"
    by (auto simp: CanMatch_def split: if_splits)
  then obtain threshold q0 m where
    lv: "(if sd = Buy then asks s else bids s) = (threshold, q0) # m"
    by (cases "if sd = Buy then asks s else bids s") auto
  then have "best_opposite s sd = threshold" by (simp add: best_opposite_def)
  with True lv show ?thesis
    by (simp add: CanFullyFill_def CanFullyFill_loop_iff entries_in_reach_def quantity_in_reach_def)
qed

lemma AddOrder_rejects_FillOrKill:
  assumes "GetOrderType order = FillOrKill"
    and "\<not> CanFullyFill s (GetSide order) (GetPrice order) (GetInitialQuantity order)"
  shows "AddOrder s order = Inr ([], s)"
  using assms by (simp add: AddOrder_def MarketToGoodTillCancel_def)

lemma best_opposite_in_reach:
  assumes "CanMatch s sd limit" and "best_opposite s sd \<in> fst ` set (data s)"
  shows "entries_in_reach s sd limit \<noteq> []"
proof -
  from assms(1) have "in_reach sd (best_opposite s sd) limit (best_opposite s sd)"
    by (cases sd) (auto simp: CanMatch_def in_reach_def best_opposite_def split: list.splits)
  with assms(2) have "\<exists>e \<in> set (data s). in_reach sd (best_opposite s sd) limit (fst e)"
    by force
  then show ?thesis by (simp add: entries_in_reach_def filter_empty_conv)
qed

lemma reachable_book_same_price: "reachable book_same_price"
proof -
  have "case AddOrder book_bid (mkOrder GoodTillCancel 2 Sell 100 5) of
          Inl e \<Rightarrow> False | Inr r \<Rightarrow> True"
    by code_simp
  from Inr_projr[OF this] show ?thesis
    unfolding book_same_price_def by (rule after_add[OF reachable_book_bid])
qed

text \<open>
  C2. \<open>CanFullyFill\<close> is false when \<open>CanMatch\<close> is false. When \<open>CanMatch\<close> is true and the
  quantity is above 0 (the precondition of \<open>AddOrder\<close>, which passes the quantity of its
  order), \<open>CanFullyFill\<close> is true exactly when the quantities of \<open>data\<close> at the prices in
  reach add up to at least the quantity; the same holds for the quantity 0 when \<open>data\<close> has
  an entry at the best opposite price. For every quantity it is true exactly when \<open>data\<close>
  has an entry at a price in reach and the sum is at least the quantity. \<open>AddOrder\<close> of a
  fill-or-kill order for which \<open>CanFullyFill\<close> is false returns no trades and the unchanged
  book.
\<close>

theorem CanFullyFill_sums_levels_in_reach:
  "(\<not> CanMatch s sd limit \<longrightarrow> \<not> CanFullyFill s sd limit q)
   \<and> (CanMatch s sd limit \<longrightarrow>
        (CanFullyFill s sd limit q \<longleftrightarrow>
           entries_in_reach s sd limit \<noteq> [] \<and> unat q \<le> quantity_in_reach s sd limit))
   \<and> (CanMatch s sd limit \<and> (0 < q \<or> best_opposite s sd \<in> fst ` set (data s)) \<longrightarrow>
        (CanFullyFill s sd limit q \<longleftrightarrow> unat q \<le> quantity_in_reach s sd limit))
   \<and> (GetOrderType order = FillOrKill
        \<and> \<not> CanFullyFill s (GetSide order) (GetPrice order) (GetInitialQuantity order) \<longrightarrow>
        AddOrder s order = Inr ([], s))"
proof (intro conjI impI)
  assume "\<not> CanMatch s sd limit"
  then show "\<not> CanFullyFill s sd limit q" by (simp add: CanFullyFill_iff)
next
  assume "CanMatch s sd limit"
  then show "CanFullyFill s sd limit q \<longleftrightarrow>
      entries_in_reach s sd limit \<noteq> [] \<and> unat q \<le> quantity_in_reach s sd limit"
    by (simp add: CanFullyFill_iff)
next
  assume a: "CanMatch s sd limit \<and> (0 < q \<or> best_opposite s sd \<in> fst ` set (data s))"
  have "entries_in_reach s sd limit \<noteq> []" if le: "unat q \<le> quantity_in_reach s sd limit"
  proof (cases "0 < q")
    case True
    then have pos: "0 < unat q" by (simp add: word_less_nat_alt)
    show ?thesis
    proof
      assume "entries_in_reach s sd limit = []"
      with le pos show False by (simp add: quantity_in_reach_def)
    qed
  next
    case False
    with a show ?thesis using best_opposite_in_reach by blast
  qed
  with a show "CanFullyFill s sd limit q \<longleftrightarrow> unat q \<le> quantity_in_reach s sd limit"
    by (auto simp: CanFullyFill_iff)
next
  assume "GetOrderType order = FillOrKill
      \<and> \<not> CanFullyFill s (GetSide order) (GetPrice order) (GetInitialQuantity order)"
  then show "AddOrder s order = Inr ([], s)" by (simp add: AddOrder_rejects_FillOrKill)
qed

theorem CanFullyFill_sums_levels_in_reach_witness:
  "\<not> CanMatch book_bid_ask Buy 100 \<and> \<not> CanFullyFill book_bid_ask Buy 100 5
   \<and> CanMatch book_bid_ask Buy 101 \<and> (0 :: Quantity) < 5
   \<and> entries_in_reach book_bid_ask Buy 101 \<noteq> []
   \<and> CanFullyFill book_bid_ask Buy 101 5 \<and> quantity_in_reach book_bid_ask Buy 101 = 5
   \<and> \<not> CanFullyFill book_bid_ask Buy 101 10
   \<and> AddOrder book_bid_ask (mkOrder FillOrKill 3 Buy 101 10) = Inr ([], book_bid_ask)"
proof -
  let ?fok = "mkOrder FillOrKill 3 Buy 101 10"
  have 1: "\<not> CanMatch book_bid_ask Buy 100" by code_simp
  have 2: "CanMatch book_bid_ask Buy 101 \<and> (0 :: Quantity) < 5" by code_simp
  have 3: "quantity_in_reach book_bid_ask Buy 101 = 5" by code_simp
  have 4: "GetOrderType ?fok = FillOrKill
      \<and> \<not> CanFullyFill book_bid_ask (GetSide ?fok) (GetPrice ?fok) (GetInitialQuantity ?fok)"
    by code_simp
  have 5: "GetSide ?fok = Buy" "GetPrice ?fok = 101" "GetInitialQuantity ?fok = 10"
    by (simp_all add: mkOrder_def)
  from CanFullyFill_sums_levels_in_reach[of book_bid_ask Buy 100 5 ?fok] 1
  have a: "\<not> CanFullyFill book_bid_ask Buy 100 5" by blast
  note t = CanFullyFill_sums_levels_in_reach[of book_bid_ask Buy 101 5 ?fok]
  from 3 have le: "unat (5 :: Quantity) \<le> quantity_in_reach book_bid_ask Buy 101" by simp
  from t 2 le have b: "CanFullyFill book_bid_ask Buy 101 5" by blast
  from t 4 have c: "AddOrder book_bid_ask ?fok = Inr ([], book_bid_ask)" by blast
  from t 2 b have e: "entries_in_reach book_bid_ask Buy 101 \<noteq> []" by blast
  from 4 5 have d: "\<not> CanFullyFill book_bid_ask Buy 101 10" by simp
  from 1 2 3 a b c d e show ?thesis by blast
qed

text \<open>
  Outside the precondition, for the quantity 0, the entry at the best opposite price is
  needed. It is missing only where \<open>data\<close> has lost the entry of a price that still has a
  resting order (see the section on the level data after a cross at one price): after
  \<^verbatim>\<open>A B GoodTillCancel 100 10 1\<close> and \<^verbatim>\<open>A S GoodTillCancel 100 5 2\<close> the bid rests at 100 and
  \<open>data\<close> is empty, and \<open>CanFullyFill\<close> is false for a sell of quantity 0 at 100.
\<close>

lemma CanFullyFill_false_at_quantity_zero:
  "reachable book_same_price
   \<and> bids book_same_price = [(100, [0])] \<and> asks book_same_price = []
   \<and> entries_in_reach book_same_price Sell 100 = []
   \<and> CanMatch book_same_price Sell 100
   \<and> unat (0 :: Quantity) \<le> quantity_in_reach book_same_price Sell 100
   \<and> \<not> CanFullyFill book_same_price Sell 100 0"
proof -
  have "bids book_same_price = [(100, [0])]" "asks book_same_price = []"
    "entries_in_reach book_same_price Sell 100 = []"
    "CanMatch book_same_price Sell 100"
    "unat (0 :: Quantity) \<le> quantity_in_reach book_same_price Sell 100"
    "\<not> CanFullyFill book_same_price Sell 100 0"
    by code_simp+
  with reachable_book_same_price show ?thesis by blast
qed

section \<open>ModifyOrder\<close>

text \<open>
  C7. For a live id, \<open>ModifyOrder\<close> is \<open>CancelOrder\<close> followed by \<open>AddOrder\<close> of a new order with
  the same id, the type that the existing order has before the cancel, and the side, price
  and quantity of the request; for an unknown id it returns no trades and the unchanged book.
\<close>

theorem ModifyOrder_is_cancel_then_add:
  "(map_of (orders s) orderId = Some ptr \<longrightarrow>
      ModifyOrder s (OrderModify orderId sd p q)
      = cancel_then_add s orderId (GetOrderType (heap s ptr)) sd p q)
   \<and> (map_of (orders s) orderId = None \<longrightarrow>
      ModifyOrder s (OrderModify orderId sd p q) = Inr ([], s))"
  by (simp add: ModifyOrder_def cancel_then_add_def ToOrderPointer_def Let_def split: sum.splits)

theorem ModifyOrder_is_cancel_then_add_witness:
  "map_of (orders book_bid) 1 = Some 0 \<and> GetOrderType (heap book_bid 0) = GoodTillCancel
   \<and> ModifyOrder book_bid (OrderModify 1 Sell 101 5)
     = cancel_then_add book_bid 1 GoodTillCancel Sell 101 5
   \<and> map_of (orders book_bid) 7 = None
   \<and> ModifyOrder book_bid (OrderModify 7 Sell 101 5) = Inr ([], book_bid)"
proof -
  have 1: "map_of (orders book_bid) 1 = Some 0" by code_simp
  have 2: "GetOrderType (heap book_bid 0) = GoodTillCancel" by code_simp
  have 3: "map_of (orders book_bid) 7 = None" by code_simp
  from ModifyOrder_is_cancel_then_add[of book_bid 1 0 Sell 101 5] 1 2
  have a: "ModifyOrder book_bid (OrderModify 1 Sell 101 5)
           = cancel_then_add book_bid 1 GoodTillCancel Sell 101 5" by simp
  from ModifyOrder_is_cancel_then_add[of book_bid 7 0 Sell 101 5] 3
  have b: "ModifyOrder book_bid (OrderModify 7 Sell 101 5) = Inr ([], book_bid)" by simp
  from 1 2 3 a b show ?thesis by blast
qed

section \<open>Market orders\<close>

lemma sorted_wrt_last:
  "sorted_wrt lt xs \<Longrightarrow> x \<in> set xs \<Longrightarrow> x = last xs \<or> lt x (last xs)"
proof (induction xs)
  case Nil
  then show ?case by simp
next
  case (Cons a xs)
  show ?case
  proof (cases "xs = []")
    case True
    with Cons.prems show ?thesis by simp
  next
    case False
    then have "last xs \<in> set xs" by simp
    with Cons False show ?thesis by auto
  qed
qed

lemma last_ask_is_highest:
  assumes "sorted_levels price_less lv" and "ap \<in> fst ` set lv"
  shows "ap \<le>s fst (last lv)" and "fst (last lv) \<in> fst ` set lv"
proof -
  from assms(2) have ne: "lv \<noteq> []" by auto
  then have l: "last (map fst lv) = fst (last lv)" by (simp add: last_map)
  from assms have "ap = last (map fst lv) \<or> price_less ap (last (map fst lv))"
    unfolding sorted_levels_def by (intro sorted_wrt_last) simp_all
  then show "ap \<le>s fst (last lv)" by (auto simp: l price_less_def)
  from ne show "fst (last lv) \<in> fst ` set lv" by simp
qed

lemma last_bid_is_lowest:
  assumes "sorted_levels price_greater lv" and "bp \<in> fst ` set lv"
  shows "fst (last lv) \<le>s bp" and "fst (last lv) \<in> fst ` set lv"
proof -
  from assms(2) have ne: "lv \<noteq> []" by auto
  then have l: "last (map fst lv) = fst (last lv)" by (simp add: last_map)
  from assms have "bp = last (map fst lv) \<or> price_greater bp (last (map fst lv))"
    unfolding sorted_levels_def by (intro sorted_wrt_last) simp_all
  then show "fst (last lv) \<le>s bp" by (auto simp: l price_greater_def)
  from ne show "fst (last lv) \<in> fst ` set lv" by simp
qed

lemma AddOrder_GoodTillCancel:
  "GetOrderType order = GoodTillCancel \<Longrightarrow>
   AddOrder s order =
     (if map_contains (orders s) (GetOrderId order) then Inr ([], s)
      else MatchOrders (PlaceOrder s order))"
  by (simp add: AddOrder_def MarketToGoodTillCancel_def)

lemma AddOrder_Market:
  assumes "GetOrderType order = Market"
  shows "AddOrder s order =
     (if GetSide order = Buy \<and> asks s \<noteq> []
      then AddOrder s (order\<lparr>GetPrice := fst (last (asks s)), GetOrderType := GoodTillCancel\<rparr>)
      else if GetSide order = Sell \<and> bids s \<noteq> []
      then AddOrder s (order\<lparr>GetPrice := fst (last (bids s)), GetOrderType := GoodTillCancel\<rparr>)
      else Inr ([], s))"
  using assms
  by (simp add: AddOrder_def MarketToGoodTillCancel_def ToGoodTillCancel_def)

text \<open>
  C3. In a reachable state, \<open>AddOrder\<close> of a market buy with a non-empty ask side is
  \<open>AddOrder\<close> of the same order as a good-till-cancel order priced at the highest resting ask:
  when its id is not live, that rewritten order is placed and only then matched. The same
  holds for a market sell and the lowest resting bid. A market order whose opposite side is
  empty returns no trades and the unchanged book.
\<close>

theorem market_order_is_limit_at_worst_price:
  assumes "reachable s" and "GetOrderType order = Market"
  shows "(GetSide order = Buy \<and> asks s \<noteq> [] \<longrightarrow>
            fst (last (asks s)) \<in> fst ` set (asks s)
            \<and> (\<forall>ap \<in> fst ` set (asks s). ap \<le>s fst (last (asks s)))
            \<and> AddOrder s order
              = AddOrder s (order\<lparr>GetPrice := fst (last (asks s)), GetOrderType := GoodTillCancel\<rparr>)
            \<and> (\<not> map_contains (orders s) (GetOrderId order) \<longrightarrow>
                 AddOrder s order
                 = MatchOrders (PlaceOrder s
                     (order\<lparr>GetPrice := fst (last (asks s)), GetOrderType := GoodTillCancel\<rparr>))))
       \<and> (GetSide order = Sell \<and> bids s \<noteq> [] \<longrightarrow>
            fst (last (bids s)) \<in> fst ` set (bids s)
            \<and> (\<forall>bp \<in> fst ` set (bids s). fst (last (bids s)) \<le>s bp)
            \<and> AddOrder s order
              = AddOrder s (order\<lparr>GetPrice := fst (last (bids s)), GetOrderType := GoodTillCancel\<rparr>)
            \<and> (\<not> map_contains (orders s) (GetOrderId order) \<longrightarrow>
                 AddOrder s order
                 = MatchOrders (PlaceOrder s
                     (order\<lparr>GetPrice := fst (last (bids s)), GetOrderType := GoodTillCancel\<rparr>))))
       \<and> ((GetSide order = Buy \<and> asks s = []) \<or> (GetSide order = Sell \<and> bids s = []) \<longrightarrow>
            AddOrder s order = Inr ([], s))"
proof -
  from assms(1) have srt: "sorted_levels price_greater (bids s)" "sorted_levels price_less (asks s)"
    using reachable_sorted_uncrossed by (auto simp: book_sorted_def)
  have buy: "fst (last (asks s)) \<in> fst ` set (asks s)
      \<and> (\<forall>ap \<in> fst ` set (asks s). ap \<le>s fst (last (asks s)))" if "asks s \<noteq> []"
    using that last_ask_is_highest[OF srt(2)] by auto
  have sell: "fst (last (bids s)) \<in> fst ` set (bids s)
      \<and> (\<forall>bp \<in> fst ` set (bids s). fst (last (bids s)) \<le>s bp)" if "bids s \<noteq> []"
    using that last_bid_is_lowest[OF srt(1)] by auto
  show ?thesis
    using buy sell AddOrder_Market[OF assms(2), of s]
    by (cases "GetSide order") (auto simp: AddOrder_GoodTillCancel)
qed

theorem market_order_is_limit_at_worst_price_witness:
  "reachable book_bid_ask \<and> GetOrderType (mkMarketOrder 3 Buy 5) = Market
   \<and> GetSide (mkMarketOrder 3 Buy 5) = Buy \<and> asks book_bid_ask \<noteq> []
   \<and> fst (last (asks book_bid_ask)) = 101
   \<and> AddOrder book_bid_ask (mkMarketOrder 3 Buy 5)
     = AddOrder book_bid_ask
         ((mkMarketOrder 3 Buy 5)\<lparr>GetPrice := 101, GetOrderType := GoodTillCancel\<rparr>)
   \<and> reachable book_bid \<and> asks book_bid = []
   \<and> AddOrder book_bid (mkMarketOrder 3 Buy 5) = Inr ([], book_bid)"
proof -
  let ?m = "mkMarketOrder 3 Buy 5"
  have m: "GetOrderType ?m = Market" "GetSide ?m = Buy"
    by (simp_all add: mkMarketOrder_def mkOrder_def)
  have a: "asks book_bid_ask \<noteq> []" "fst (last (asks book_bid_ask)) = 101" "asks book_bid = []"
    by code_simp+
  from market_order_is_limit_at_worst_price[OF reachable_book_bid_ask m(1)] m(2) a(1,2)
  have 1: "AddOrder book_bid_ask ?m
      = AddOrder book_bid_ask (?m\<lparr>GetPrice := 101, GetOrderType := GoodTillCancel\<rparr>)"
    by simp
  from market_order_is_limit_at_worst_price[OF reachable_book_bid m(1)] m(2) a(3)
  have 2: "AddOrder book_bid ?m = Inr ([], book_bid)" by simp
  from m a 1 2 reachable_book_bid reachable_book_bid_ask show ?thesis by blast
qed

section \<open>The trades of the matching loop\<close>




lemma front_nonempty_iff: "front_nonempty lv \<longleftrightarrow> (\<exists>p a q m. lv = (p, a # q) # m)"
  by (auto simp: front_nonempty_def neq_Nil_conv split: list.splits prod.splits)






section \<open>The structure of the book\<close>

subsection \<open>Levels\<close>

lemma in_level_ptrs: "a \<in> set (level_ptrs lv) \<longleftrightarrow> (\<exists>p q. (p, q) \<in> set lv \<and> a \<in> set q)"
  by (force simp: level_ptrs_def)

lemma level_ptrs_simps [simp]:
  "level_ptrs [] = []"
  "level_ptrs ((p, q) # m) = q @ level_ptrs m"
  "level_ptrs (xs @ ys) = level_ptrs xs @ level_ptrs ys"
  by (simp_all add: level_ptrs_def)

lemma sorted_levels_distinct_keys:
  "sorted_levels price_less lv \<Longrightarrow> distinct (map fst lv)"
  "sorted_levels price_greater lv \<Longrightarrow> distinct (map fst lv)"
  unfolding sorted_levels_def
  by (induction lv) (auto simp: price_less_def price_greater_def)

lemma level_split:
  fixes lv :: Levels
  assumes "distinct (map fst lv)" and "(k, q) \<in> set lv"
  shows "\<exists>xs ys. lv = xs @ (k, q) # ys \<and> k \<notin> fst ` set xs \<and> k \<notin> fst ` set ys
           \<and> map_assign k v lv = xs @ (k, v) # ys \<and> map_erase k lv = xs @ ys"
proof -
  from assms(2) obtain xs ys where lv: "lv = xs @ (k, q) # ys" by (auto simp: in_set_conv_decomp)
  with assms(1) have nx: "k \<notin> fst ` set xs" and ny: "k \<notin> fst ` set ys" by auto
  have a: "map_assign k v zs = zs" and e: "map_erase k zs = zs" if "k \<notin> fst ` set zs"
    for zs :: "(Price \<times> OrderPointers) list"
    using that by (induction zs) (auto simp: map_assign_def map_erase_def)
  have "map_assign k v lv = xs @ (k, v) # ys"
    using a[OF nx] a[OF ny] by (simp add: lv map_assign_def)
  moreover have "map_erase k lv = xs @ ys"
    using e[OF nx] e[OF ny] by (simp add: lv map_erase_def)
  ultimately show ?thesis using lv nx ny by blast
qed

lemma erase_from_level_split:
  assumes "erase_from_level p ptr lv = Inr lv'" and "distinct (map fst lv)"
  shows "\<exists>xs q ys. lv = xs @ (p, q) # ys \<and> ptr \<in> set q
           \<and> lv' = (if remove1 ptr q = [] then xs @ ys else xs @ (p, remove1 ptr q) # ys)"
proof -
  from assms(1) obtain q where q: "map_of lv p = Some q" "ptr \<in> set q"
    and lv': "lv' = (if remove1 ptr q = [] then map_erase p lv
                    else map_assign p (remove1 ptr q) lv)"
    unfolding erase_from_level_Inr by blast
  from q(1) have "(p, q) \<in> set lv" by (rule map_of_SomeD)
  from level_split[OF assms(2) this, of "remove1 ptr q"] q(2) lv' show ?thesis by auto
qed

lemma erase_from_level_wf:
  assumes er: "erase_from_level p ptr lv = Inr lv'" and dk: "distinct (map fst lv)"
    and dp: "distinct (level_ptrs lv)"
  shows "set (level_ptrs lv') = set (level_ptrs lv) - {ptr}"
    and "distinct (level_ptrs lv')"
    and "level_ok h sd lv \<Longrightarrow> level_ok h sd lv'"
    and "no_empty_level lv \<Longrightarrow> no_empty_level lv'"
proof -
  from erase_from_level_split[OF er dk] obtain xs q ys where
    lv: "lv = xs @ (p, q) # ys" and ptr: "ptr \<in> set q"
    and lv': "lv' = (if remove1 ptr q = [] then xs @ ys else xs @ (p, remove1 ptr q) # ys)"
    by blast
  from dp have dq: "distinct q" and disj: "ptr \<notin> set (level_ptrs xs)" "ptr \<notin> set (level_ptrs ys)"
    using ptr by (auto simp: lv)
  have rm: "set (remove1 ptr q) = set q - {ptr}" using dq by simp
  have empty: "set q = {ptr}" if "remove1 ptr q = []"
    using that rm ptr by auto
  show "set (level_ptrs lv') = set (level_ptrs lv) - {ptr}"
    using disj rm empty by (auto simp: lv lv')
  show "distinct (level_ptrs lv')"
    using dp dq rm by (auto simp: lv lv')
  show "level_ok h sd lv \<Longrightarrow> level_ok h sd lv'"
    unfolding level_ok_def lv lv' using rm by (auto split: if_splits)
  show "no_empty_level lv \<Longrightarrow> no_empty_level lv'"
    unfolding no_empty_level_def lv lv' by (auto split: if_splits)
qed

subsection \<open>The store, and the pointers of the book\<close>

lemma in_book_ptrs:
  "a \<in> set (book_ptrs s) \<longleftrightarrow> a \<in> set (level_ptrs (bids s)) \<or> a \<in> set (level_ptrs (asks s))"
  by (simp add: book_ptrs_def)

lemma static_eq_refl [simp]: "static_eq h h"
  by (simp add: static_eq_def)

lemma static_eq_trans: "static_eq h1 h2 \<Longrightarrow> static_eq h2 h3 \<Longrightarrow> static_eq h1 h3"
  by (simp add: static_eq_def)

lemma static_eq_Fill:
  "Fill (h a) q = Inr b \<Longrightarrow> static_eq h (h(a := b))"
  by (auto simp: Fill_def static_eq_def split: if_splits)

lemma level_ok_static: "static_eq h h' \<Longrightarrow> level_ok h sd lv \<Longrightarrow> level_ok h' sd lv"
  by (simp add: level_ok_def static_eq_def)

lemma level_ok_disjoint:
  assumes "level_ok h Buy lb" and "level_ok h Sell la" and "a \<in> set (level_ptrs lb)"
  shows "a \<notin> set (level_ptrs la)"
proof
  assume "a \<in> set (level_ptrs la)"
  with assms(2) have "GetSide (h a) = Sell" unfolding in_level_ptrs level_ok_def by fastforce
  moreover from assms(1,3) have "GetSide (h a) = Buy" unfolding in_level_ptrs level_ok_def by fastforce
  ultimately show False by simp
qed

lemma wf_book_heap:
  assumes "wf_book s" and "static_eq (heap s) h"
  shows "wf_book (s\<lparr>heap := h\<rparr>)"
  using assms level_ok_static[OF assms(2)]
  by (simp add: wf_book_def book_sorted_def index_ok_def book_ptrs_def static_eq_def)

lemma wf_book_data [simp]: "wf_book (s\<lparr>data := d\<rparr>) = wf_book s"
  by (simp add: wf_book_def book_sorted_def index_ok_def book_ptrs_def)

lemma index_ok_remove:
  assumes io: "index_ok s" and ptr: "ptr \<in> set (book_ptrs s)"
    and sub: "set (book_ptrs s') = set (book_ptrs s) - {ptr}"
    and h: "heap s' = heap s"
    and o: "orders s' = map_erase (GetOrderId (heap s ptr)) (orders s)"
  shows "index_ok s'"
proof -
  from io ptr have p: "map_of (orders s) (GetOrderId (heap s ptr)) = Some ptr"
    by (simp add: index_ok_def)
  have 1: "a \<in> set (book_ptrs s') \<and> GetOrderId (heap s' a) = i"
    if "map_of (orders s') i = Some a" for i a
  proof -
    from that have ne: "i \<noteq> GetOrderId (heap s ptr)" and m: "map_of (orders s) i = Some a"
      by (auto simp: o map_of_map_erase split: if_splits)
    from io m have "a \<in> set (book_ptrs s)" "GetOrderId (heap s a) = i"
      by (auto simp: index_ok_def)
    with ne show ?thesis by (auto simp: sub h)
  qed
  have 2: "map_of (orders s') (GetOrderId (heap s' a)) = Some a" if "a \<in> set (book_ptrs s')" for a
  proof -
    from that have a: "a \<in> set (book_ptrs s)" "a \<noteq> ptr" by (auto simp: sub)
    with io have m: "map_of (orders s) (GetOrderId (heap s a)) = Some a" by (simp add: index_ok_def)
    with p a(2) have "GetOrderId (heap s a) \<noteq> GetOrderId (heap s ptr)" by auto
    with m show ?thesis by (simp add: o h map_of_map_erase)
  qed
  from 1 2 show ?thesis unfolding index_ok_def by blast
qed

lemma level_ok_pop: "level_ok h sd ((p, a # q) # m) \<Longrightarrow> level_ok h sd ((p, q) # m)"
  by (simp add: level_ok_def)

lemma wf_book_pop_bid:
  assumes wf: "wf_book s" and B: "bids s = (bp, bid # bq) # bm"
    and s': "s' = s\<lparr>bids := (bp, bq) # bm,
                    orders := map_erase (GetOrderId (heap s bid)) (orders s)\<rparr>"
  shows "wf_book s'" and "set (book_ptrs s') = set (book_ptrs s) - {bid}"
proof -
  from wf have srt: "book_sorted s" and db: "distinct (level_ptrs (bids s))"
    and da: "distinct (level_ptrs (asks s))" and fr: "\<forall>a \<in> set (book_ptrs s). a < nextPointer s"
    and lb: "level_ok (heap s) Buy (bids s)" and la: "level_ok (heap s) Sell (asks s)"
    and io: "index_ok s"
    by (simp_all add: wf_book_def)
  from db have d: "bid \<notin> set bq" "bid \<notin> set (level_ptrs bm)" "distinct (bq @ level_ptrs bm)"
    by (simp_all add: B)
  have "bid \<in> set (level_ptrs (bids s))" by (simp add: B)
  with lb la have "bid \<notin> set (level_ptrs (asks s))" by (rule level_ok_disjoint)
  with d show sub: "set (book_ptrs s') = set (book_ptrs s) - {bid}"
    by (auto simp: book_ptrs_def B s')
  have "bid \<in> set (book_ptrs s)" by (simp add: book_ptrs_def B)
  from io this sub have 1: "index_ok s'"
    by (rule index_ok_remove) (simp_all add: s')
  from srt have 2: "book_sorted s'"
    by (simp add: book_sorted_def sorted_levels_def B s')
  from d(3) have 3: "distinct (level_ptrs (bids s'))" by (simp add: s')
  from da have 4: "distinct (level_ptrs (asks s'))" by (simp add: s')
  from fr sub have 5: "\<forall>a \<in> set (book_ptrs s'). a < nextPointer s'" by (simp add: s')
  from lb have 6: "level_ok (heap s') Buy (bids s')"
    using level_ok_pop[of "heap s" Buy bp bid bq bm] by (simp add: B s')
  from la have 7: "level_ok (heap s') Sell (asks s')" by (simp add: s')
  from 1 2 3 4 5 6 7 show "wf_book s'" by (simp add: wf_book_def)
qed

lemma wf_book_pop_ask:
  assumes wf: "wf_book s" and A: "asks s = (ap, ask # aq) # am"
    and s': "s' = s\<lparr>asks := (ap, aq) # am,
                    orders := map_erase (GetOrderId (heap s ask)) (orders s)\<rparr>"
  shows "wf_book s'" and "set (book_ptrs s') = set (book_ptrs s) - {ask}"
proof -
  from wf have srt: "book_sorted s" and db: "distinct (level_ptrs (bids s))"
    and da: "distinct (level_ptrs (asks s))" and fr: "\<forall>a \<in> set (book_ptrs s). a < nextPointer s"
    and lb: "level_ok (heap s) Buy (bids s)" and la: "level_ok (heap s) Sell (asks s)"
    and io: "index_ok s"
    by (simp_all add: wf_book_def)
  from da have d: "ask \<notin> set aq" "ask \<notin> set (level_ptrs am)" "distinct (aq @ level_ptrs am)"
    by (simp_all add: A)
  have in_asks: "ask \<in> set (level_ptrs (asks s))" by (simp add: A)
  have "ask \<notin> set (level_ptrs (bids s))"
  proof
    assume "ask \<in> set (level_ptrs (bids s))"
    with lb la have "ask \<notin> set (level_ptrs (asks s))" by (rule level_ok_disjoint)
    with in_asks show False by simp
  qed
  with d show sub: "set (book_ptrs s') = set (book_ptrs s) - {ask}"
    by (auto simp: book_ptrs_def A s')
  have "ask \<in> set (book_ptrs s)" by (simp add: book_ptrs_def A)
  from io this sub have 1: "index_ok s'"
    by (rule index_ok_remove) (simp_all add: s')
  from srt have 2: "book_sorted s'"
    by (simp add: book_sorted_def sorted_levels_def A s')
  from d(3) have 3: "distinct (level_ptrs (asks s'))" by (simp add: s')
  from db have 4: "distinct (level_ptrs (bids s'))" by (simp add: s')
  from fr sub have 5: "\<forall>a \<in> set (book_ptrs s'). a < nextPointer s'" by (simp add: s')
  from la have 6: "level_ok (heap s') Sell (asks s')"
    using level_ok_pop[of "heap s" Sell ap ask aq am] by (simp add: A s')
  from lb have 7: "level_ok (heap s') Buy (bids s')" by (simp add: s')
  from 1 2 3 4 5 6 7 show "wf_book s'" by (simp add: wf_book_def)
qed

subsection \<open>One pass through the body of the inner loop\<close>

lemma MatchStep_decompose:
  assumes B: "bids s = (bp, bid # bq) # bm" and A: "asks s = (ap, ask # aq) # am"
    and run: "MatchStep s t = Inr (s1, t1)"
  shows "\<exists>h2 sa sb sc d.
      static_eq (heap s) h2 \<and> sa = s\<lparr>heap := h2\<rparr>
      \<and> sb = (if IsFilled (h2 bid)
              then sa\<lparr>bids := (bp, bq) # bm,
                      orders := map_erase (GetOrderId (heap sa bid)) (orders sa)\<rparr>
              else sa)
      \<and> sc = (if IsFilled (h2 ask)
              then sb\<lparr>asks := (ap, aq) # am,
                      orders := map_erase (GetOrderId (heap sb ask)) (orders sb)\<rparr>
              else sb)
      \<and> s1 = sc\<lparr>data := d\<rparr>"
proof -
  let ?q = "min (GetRemainingQuantity (heap s bid)) (GetRemainingQuantity (heap s ask))"
  from run obtain b1 where f1: "Fill (heap s bid) ?q = Inr b1"
    unfolding MatchStep_def B A by (auto simp: Let_def split: sum.splits)
  let ?h1 = "(heap s)(bid := b1)"
  from run f1 obtain a1 where f2: "Fill (?h1 ask) ?q = Inr a1"
    unfolding MatchStep_def B A by (auto simp: Let_def split: sum.splits)
  let ?h2 = "?h1(ask := a1)"
  have st: "static_eq (heap s) ?h2"
    using static_eq_Fill[of "heap s" bid ?q b1, OF f1] static_eq_Fill[of ?h1 ask ?q a1, OF f2]
    by (rule static_eq_trans)
  from run f1 f2 show ?thesis
    unfolding MatchStep_def B A
    apply (simp add: Let_def del: fun_upd_apply)
    apply (rule exI[of _ ?h2])
    apply (simp add: st del: fun_upd_apply)
    apply (auto simp del: fun_upd_apply)
    done
qed

lemma MatchStep_wf:
  assumes wf: "wf_book s"
    and B: "bids s = (bp, bid # bq) # bm" and A: "asks s = (ap, ask # aq) # am"
    and run: "MatchStep s t = Inr (s1, t1)"
  shows "wf_book s1" and "set (book_ptrs s1) \<subseteq> set (book_ptrs s)"
    and "static_eq (heap s) (heap s1)" and "nextPointer s1 = nextPointer s"
    and "\<exists>bq1. bids s1 = (bp, bq1) # bm
           \<and> (bq1 = bid # bq \<or> bq1 = bq \<and> bid \<notin> set (book_ptrs s1))"
    and "\<exists>aq1. asks s1 = (ap, aq1) # am
           \<and> (aq1 = ask # aq \<or> aq1 = aq \<and> ask \<notin> set (book_ptrs s1))"
proof -
  from MatchStep_decompose[OF B A run] obtain h2 sa sb sc d where
    st: "static_eq (heap s) h2" and sa: "sa = s\<lparr>heap := h2\<rparr>"
    and sb: "sb = (if IsFilled (h2 bid)
              then sa\<lparr>bids := (bp, bq) # bm,
                      orders := map_erase (GetOrderId (heap sa bid)) (orders sa)\<rparr>
              else sa)"
    and sc: "sc = (if IsFilled (h2 ask)
              then sb\<lparr>asks := (ap, aq) # am,
                      orders := map_erase (GetOrderId (heap sb ask)) (orders sb)\<rparr>
              else sb)"
    and s1: "s1 = sc\<lparr>data := d\<rparr>"
    by blast
  have wa: "wf_book sa" unfolding sa using wf st by (rule wf_book_heap)
  have Ba: "bids sa = (bp, bid # bq) # bm" and Aa: "asks sa = (ap, ask # aq) # am"
    and pa: "book_ptrs sa = book_ptrs s"
    by (simp_all add: sa B A book_ptrs_def)
  have wb: "wf_book sb"
    and pb: "set (book_ptrs sb) \<subseteq> set (book_ptrs sa)"
    and Bb: "\<exists>bq1. bids sb = (bp, bq1) # bm
           \<and> (bq1 = bid # bq \<or> bq1 = bq \<and> bid \<notin> set (book_ptrs sb))"
    and Ab: "asks sb = (ap, ask # aq) # am"
  proof -
    show "wf_book sb"
      using wa wf_book_pop_bid(1)[OF wa Ba refl] by (simp add: sb)
    show "set (book_ptrs sb) \<subseteq> set (book_ptrs sa)"
      using wf_book_pop_bid(2)[OF wa Ba refl] by (auto simp: sb)
    show "\<exists>bq1. bids sb = (bp, bq1) # bm
           \<and> (bq1 = bid # bq \<or> bq1 = bq \<and> bid \<notin> set (book_ptrs sb))"
      using wf_book_pop_bid(2)[OF wa Ba refl] Ba by (auto simp: sb)
    show "asks sb = (ap, ask # aq) # am" using Aa by (simp add: sb)
  qed
  from Bb obtain bq1 where Bb1: "bids sb = (bp, bq1) # bm"
    and Bb2: "bq1 = bid # bq \<or> bq1 = bq \<and> bid \<notin> set (book_ptrs sb)" by blast
  have wc: "wf_book sc"
    and pc: "set (book_ptrs sc) \<subseteq> set (book_ptrs sb)"
    and Ac: "\<exists>aq1. asks sc = (ap, aq1) # am
           \<and> (aq1 = ask # aq \<or> aq1 = aq \<and> ask \<notin> set (book_ptrs sc))"
    and Bc: "bids sc = (bp, bq1) # bm"
  proof -
    show "wf_book sc"
      using wb wf_book_pop_ask(1)[OF wb Ab refl] by (simp add: sc)
    show "set (book_ptrs sc) \<subseteq> set (book_ptrs sb)"
      using wf_book_pop_ask(2)[OF wb Ab refl] by (auto simp: sc)
    show "\<exists>aq1. asks sc = (ap, aq1) # am
           \<and> (aq1 = ask # aq \<or> aq1 = aq \<and> ask \<notin> set (book_ptrs sc))"
      using wf_book_pop_ask(2)[OF wb Ab refl] Ab by (auto simp: sc)
    show "bids sc = (bp, bq1) # bm" using Bb1 by (simp add: sc)
  qed
  have p1: "book_ptrs s1 = book_ptrs sc" by (simp add: s1 book_ptrs_def)
  show "wf_book s1" using wc by (simp add: s1)
  show "set (book_ptrs s1) \<subseteq> set (book_ptrs s)" using pc pb pa p1 by auto
  show "static_eq (heap s) (heap s1)" using st by (simp add: s1 sc sb sa)
  show "nextPointer s1 = nextPointer s" by (simp add: s1 sc sb sa)
  show "\<exists>bq1. bids s1 = (bp, bq1) # bm
           \<and> (bq1 = bid # bq \<or> bq1 = bq \<and> bid \<notin> set (book_ptrs s1))"
    using Bc Bb2 pc p1 by (auto simp: s1)
  show "\<exists>aq1. asks s1 = (ap, aq1) # am
           \<and> (aq1 = ask # aq \<or> aq1 = aq \<and> ask \<notin> set (book_ptrs s1))"
    using Ac p1 by (auto simp: s1)
qed

subsection \<open>The two loops\<close>

lemma shrinks_refl [simp]: "shrinks s s"
  by (simp add: shrinks_def)

lemma shrinks_trans: "shrinks s1 s2 \<Longrightarrow> shrinks s2 s3 \<Longrightarrow> shrinks s1 s3"
  unfolding shrinks_def using static_eq_trans by auto

lemma MatchStep_front_or_gone:
  assumes wf: "wf_book s"
    and B: "bids s = (bp, bid # bq) # bm" and A: "asks s = (ap, ask # aq) # am"
    and run: "MatchStep s t = Inr (s1, t1)" and fg: "front_or_gone ptr s"
  shows "front_or_gone ptr s1"
proof (cases "ptr \<in> set (book_ptrs s1)")
  case False
  then show ?thesis by (simp add: front_or_gone_def)
next
  case True
  with MatchStep_wf(2)[OF wf B A run] have "ptr \<in> set (book_ptrs s)" by auto
  with fg have "ptr = bid \<or> ptr = ask" by (auto simp: front_or_gone_def at_front_def B A)
  with True MatchStep_wf(5,6)[OF wf B A run] show ?thesis
    by (auto simp: front_or_gone_def at_front_def)
qed

lemma MatchLevel_wf:
  assumes "MatchLevel s t = Inr (s', t')" and "wf_book s"
  shows "wf_book s' \<and> shrinks s s' \<and> tl (bids s') = tl (bids s) \<and> tl (asks s') = tl (asks s)
         \<and> (front_or_gone ptr s \<longrightarrow> front_or_gone ptr s')"
  using assms
proof (induction rule: MatchLevel_induct)
  case (stop s t)
  then show ?case by simp
next
  case (step s t s1 t1 s' t')
  from step.hyps(1,2) obtain bp bid bq bm ap ask aq am where
    B: "bids s = (bp, bid # bq) # bm" and A: "asks s = (ap, ask # aq) # am"
    unfolding front_nonempty_iff by blast
  note w = MatchStep_wf[OF step.prems B A step.hyps(3)]
  from w(2,3,4) have sh: "shrinks s s1" by (simp add: shrinks_def)
  from w(5,6) have tls: "tl (bids s1) = tl (bids s)" "tl (asks s1) = tl (asks s)"
    by (auto simp: B A)
  have fg: "front_or_gone ptr s \<longrightarrow> front_or_gone ptr s1"
    using MatchStep_front_or_gone[OF step.prems B A step.hyps(3)] by blast
  from step.IH[OF w(1)] sh tls fg show ?case
    using shrinks_trans by auto
qed

lemma map_erase_head:
  fixes m :: Levels
  shows "distinct (map fst ((p, q) # m)) \<Longrightarrow> map_erase p ((p, q) # m) = m"
  by (induction m) (auto simp: map_erase_def)

lemma wf_book_erase_front_bids:
  assumes wf: "wf_book s" and B: "bids s = (bp, bq) # bm" and ne: "no_empty_level bm"
  shows "wf_book (erase_front_if_empty_bids bp s)"
    and "shrinks s (erase_front_if_empty_bids bp s)"
    and "no_empty_level (bids (erase_front_if_empty_bids bp s))"
    and "asks (erase_front_if_empty_bids bp s) = asks s"
    and "front_or_gone ptr s \<Longrightarrow> front_or_gone ptr (erase_front_if_empty_bids bp s)"
proof -
  let ?s' = "erase_front_if_empty_bids bp s"
  from wf have "distinct (map fst (bids s))"
    by (simp add: wf_book_def book_sorted_def sorted_levels_distinct_keys)
  then have er: "map_erase bp ((bp, bq) # bm) = bm" using map_erase_head[of bp bq bm] by (simp add: B)
  show a: "asks ?s' = asks s" by (simp add: erase_front_if_empty_bids_def)
  have b: "bids ?s' = (if bq = [] then bm else bids s)"
    using er by (auto simp: erase_front_if_empty_bids_def front_empty_def B split: list.splits)
  have h: "heap ?s' = heap s" "nextPointer ?s' = nextPointer s" "orders ?s' = orders s"
    by (simp_all add: erase_front_if_empty_bids_def)
  have p: "book_ptrs ?s' = book_ptrs s" by (simp add: book_ptrs_def a b B)
  from p h show "shrinks s ?s'" by (simp add: shrinks_def)
  from ne show "no_empty_level (bids ?s')" by (auto simp: b B no_empty_level_def)
  from wf show "wf_book ?s'"
    unfolding wf_book_def index_ok_def book_sorted_def p h a
    by (auto simp: b B sorted_levels_def level_ok_def)
  show "front_or_gone ptr s \<Longrightarrow> front_or_gone ptr ?s'"
    unfolding front_or_gone_def at_front_def p a by (auto simp: b B)
qed

lemma wf_book_erase_front_asks:
  assumes wf: "wf_book s" and A: "asks s = (ap, aq) # am" and ne: "no_empty_level am"
  shows "wf_book (erase_front_if_empty_asks ap s)"
    and "shrinks s (erase_front_if_empty_asks ap s)"
    and "no_empty_level (asks (erase_front_if_empty_asks ap s))"
    and "bids (erase_front_if_empty_asks ap s) = bids s"
    and "front_or_gone ptr s \<Longrightarrow> front_or_gone ptr (erase_front_if_empty_asks ap s)"
proof -
  let ?s' = "erase_front_if_empty_asks ap s"
  from wf have "distinct (map fst (asks s))"
    by (simp add: wf_book_def book_sorted_def sorted_levels_distinct_keys)
  then have er: "map_erase ap ((ap, aq) # am) = am" using map_erase_head[of ap aq am] by (simp add: A)
  show b: "bids ?s' = bids s" by (simp add: erase_front_if_empty_asks_def)
  have a: "asks ?s' = (if aq = [] then am else asks s)"
    using er by (auto simp: erase_front_if_empty_asks_def front_empty_def A split: list.splits)
  have h: "heap ?s' = heap s" "nextPointer ?s' = nextPointer s" "orders ?s' = orders s"
    by (simp_all add: erase_front_if_empty_asks_def)
  have p: "book_ptrs ?s' = book_ptrs s" by (simp add: book_ptrs_def a b A)
  from p h show "shrinks s ?s'" by (simp add: shrinks_def)
  from ne show "no_empty_level (asks ?s')" by (auto simp: a A no_empty_level_def)
  from wf show "wf_book ?s'"
    unfolding wf_book_def index_ok_def book_sorted_def p h b
    by (auto simp: a A sorted_levels_def level_ok_def)
  show "front_or_gone ptr s \<Longrightarrow> front_or_gone ptr ?s'"
    unfolding front_or_gone_def at_front_def p b by (auto simp: a A)
qed

lemma no_empty_level_tl: "no_empty_level lv \<Longrightarrow> no_empty_level (tl lv)"
  by (cases lv) (auto simp: no_empty_level_def)

lemma MatchLoop_wf:
  assumes "MatchLoop s t = Inr (s', t')" and "wf_book s"
    and "no_empty_level (bids s)" and "no_empty_level (asks s)"
  shows "wf_book s' \<and> shrinks s s' \<and> no_empty_level (bids s') \<and> no_empty_level (asks s')
         \<and> (front_or_gone ptr s \<longrightarrow> front_or_gone ptr s')"
  using assms
proof (induction rule: MatchLoop_induct)
  case (stop s t)
  then show ?case by simp
next
  case (pass s t bp bq bm ap aq am s1 t1 s' t')
  from MatchLevel_wf[OF pass.hyps(4) pass.prems(1), of ptr]
  have w1: "wf_book s1" and sh1: "shrinks s s1"
    and tls: "tl (bids s1) = tl (bids s)" "tl (asks s1) = tl (asks s)"
    and fg1: "front_or_gone ptr s \<longrightarrow> front_or_gone ptr s1"
    by simp_all
  from MatchLevel_keys[OF pass.hyps(4)] tls pass.hyps(1,2) obtain bq1 aq1 where
    B1: "bids s1 = (bp, bq1) # bm" and A1: "asks s1 = (ap, aq1) # am"
    by (cases "bids s1"; cases "asks s1") auto
  from pass.prems(2,3) have ne: "no_empty_level bm" "no_empty_level am"
    using no_empty_level_tl[of "bids s"] no_empty_level_tl[of "asks s"]
    by (simp_all add: pass.hyps(1,2))
  let ?s2 = "erase_front_if_empty_bids bp s1"
  note e2 = wf_book_erase_front_bids[OF w1 B1 ne(1)]
  from e2(4) A1 have A2: "asks ?s2 = (ap, aq1) # am" by simp
  let ?s3 = "erase_front_if_empty_asks ap ?s2"
  note e3 = wf_book_erase_front_asks[OF e2(1) A2 ne(2)]
  from e3(4) e2(3) have ne3: "no_empty_level (bids ?s3)" by simp
  from sh1 e2(2) e3(2) have sh3: "shrinks s ?s3" using shrinks_trans by blast
  have fg3: "front_or_gone ptr s \<longrightarrow> front_or_gone ptr ?s3"
    using fg1 e2(5)[of ptr] e3(5)[of ptr] by blast
  from pass.IH[OF e3(1) ne3 e3(3)] sh3 fg3 show ?case
    using shrinks_trans by blast
qed

subsection \<open>Cancelling and placing\<close>

lemma CancelOrderInternal_wf:
  assumes run: "CancelOrderInternal s orderId = Inr s'" and wf: "wf_book s"
  shows "wf_book s'" and "shrinks s s'" and "heap s' = heap s"
    and "set (book_ptrs s') = set (book_ptrs s) - {a. map_of (orders s) orderId = Some a}"
    and "no_empty_level (bids s) \<Longrightarrow> no_empty_level (bids s')"
    and "no_empty_level (asks s) \<Longrightarrow> no_empty_level (asks s')"
proof -
  from wf have srt: "book_sorted s" and db: "distinct (level_ptrs (bids s))"
    and da: "distinct (level_ptrs (asks s))" and fr: "\<forall>a \<in> set (book_ptrs s). a < nextPointer s"
    and lb: "level_ok (heap s) Buy (bids s)" and la: "level_ok (heap s) Sell (asks s)"
    and io: "index_ok s"
    by (simp_all add: wf_book_def)
  from srt have dk: "distinct (map fst (bids s))" "distinct (map fst (asks s))"
    by (simp_all add: book_sorted_def sorted_levels_distinct_keys)
  have "wf_book s' \<and> shrinks s s' \<and> heap s' = heap s
      \<and> set (book_ptrs s') = set (book_ptrs s) - {a. map_of (orders s) orderId = Some a}
      \<and> (no_empty_level (bids s) \<longrightarrow> no_empty_level (bids s'))
      \<and> (no_empty_level (asks s) \<longrightarrow> no_empty_level (asks s'))"
    using run
  proof (cases rule: CancelOrderInternal_cases)
    case absent
    with wf show ?thesis by simp
  next
    case (sell ptr lv)
    note e = erase_from_level_wf[OF sell(3) dk(2) da]
    from io sell(1) have id: "GetOrderId (heap s ptr) = orderId" and pin: "ptr \<in> set (book_ptrs s)"
      by (auto simp: index_ok_def)
    have nb: "ptr \<notin> set (level_ptrs (bids s))"
    proof
      assume "ptr \<in> set (level_ptrs (bids s))"
      with lb have "GetSide (heap s ptr) = Buy" unfolding in_level_ptrs level_ok_def by fastforce
      with sell(2) show False by simp
    qed
    have h: "heap s' = heap s" "nextPointer s' = nextPointer s" "bids s' = bids s" "asks s' = lv"
      "orders s' = map_erase (GetOrderId (heap s ptr)) (orders s)"
      by (simp_all add: sell(4) id)
    from e(1) nb have sub: "set (book_ptrs s') = set (book_ptrs s) - {ptr}"
      by (auto simp: book_ptrs_def h)
    from io pin sub h(1,5) have 1: "index_ok s'" by (rule index_ok_remove)
    from srt erase_from_level_keys(2)[OF sell(3)] have 2: "book_sorted s'"
      by (simp add: book_sorted_def h)
    from 1 2 db e(2) fr sub lb e(3)[OF la] have "wf_book s'"
      by (simp add: wf_book_def h)
    moreover from sub h have "shrinks s s'" by (auto simp: shrinks_def)
    moreover from sub sell(1) have
      "set (book_ptrs s') = set (book_ptrs s) - {a. map_of (orders s) orderId = Some a}" by simp
    ultimately show ?thesis using e(4) h by simp
  next
    case (buy ptr lv)
    note e = erase_from_level_wf[OF buy(3) dk(1) db]
    from io buy(1) have id: "GetOrderId (heap s ptr) = orderId" and pin: "ptr \<in> set (book_ptrs s)"
      by (auto simp: index_ok_def)
    have na: "ptr \<notin> set (level_ptrs (asks s))"
    proof
      assume "ptr \<in> set (level_ptrs (asks s))"
      with la have "GetSide (heap s ptr) = Sell" unfolding in_level_ptrs level_ok_def by fastforce
      with buy(2) show False by simp
    qed
    have h: "heap s' = heap s" "nextPointer s' = nextPointer s" "asks s' = asks s" "bids s' = lv"
      "orders s' = map_erase (GetOrderId (heap s ptr)) (orders s)"
      by (simp_all add: buy(4) id)
    from e(1) na have sub: "set (book_ptrs s') = set (book_ptrs s) - {ptr}"
      by (auto simp: book_ptrs_def h)
    from io pin sub h(1,5) have 1: "index_ok s'" by (rule index_ok_remove)
    from srt erase_from_level_keys(2)[OF buy(3)] have 2: "book_sorted s'"
      by (simp add: book_sorted_def h)
    from 1 2 da e(2) fr sub la e(3)[OF lb] have "wf_book s'"
      by (simp add: wf_book_def h)
    moreover from sub h have "shrinks s s'" by (auto simp: shrinks_def)
    moreover from sub buy(1) have
      "set (book_ptrs s') = set (book_ptrs s) - {a. map_of (orders s) orderId = Some a}" by simp
    ultimately show ?thesis using e(4) h by simp
  qed
  then show "wf_book s'" and "shrinks s s'" and "heap s' = heap s"
    and "set (book_ptrs s') = set (book_ptrs s) - {a. map_of (orders s) orderId = Some a}"
    and "no_empty_level (bids s) \<Longrightarrow> no_empty_level (bids s')"
    and "no_empty_level (asks s) \<Longrightarrow> no_empty_level (asks s')"
    by simp_all
qed

lemma push_back_at_ptrs:
  "set (level_ptrs (push_back_at lt k a lv)) = insert a (set (level_ptrs lv))"
  by (induction lt k a lv rule: push_back_at.induct) auto

lemma push_back_at_distinct:
  "distinct (level_ptrs lv) \<Longrightarrow> a \<notin> set (level_ptrs lv) \<Longrightarrow>
   distinct (level_ptrs (push_back_at lt k a lv))"
  by (induction lt k a lv rule: push_back_at.induct) (auto simp: push_back_at_ptrs)

lemma push_back_at_level_ok:
  "level_ok h sd lv \<Longrightarrow> GetSide (h a) = sd \<Longrightarrow> GetPrice (h a) = k \<Longrightarrow>
   level_ok h sd (push_back_at lt k a lv)"
  by (induction lt k a lv rule: push_back_at.induct) (auto simp: level_ok_def)

lemma push_back_at_no_empty:
  "no_empty_level lv \<Longrightarrow> no_empty_level (push_back_at lt k a lv)"
  by (induction lt k a lv rule: push_back_at.induct) (auto simp: no_empty_level_def)

lemma push_back_at_front:
  "\<forall>x \<in> fst ` set lv. x \<noteq> k \<and> lt k x \<Longrightarrow> push_back_at lt k a lv = (k, [a]) # lv"
  by (cases lv) auto

lemma level_ok_fresh:
  "level_ok h sd lv \<Longrightarrow> ptr \<notin> set (level_ptrs lv) \<Longrightarrow> level_ok (h(ptr := order)) sd lv"
  unfolding level_ok_def in_level_ptrs by fastforce

lemma PlaceOrder_fields:
  "heap (PlaceOrder s order) = (heap s)(nextPointer s := order)"
  "nextPointer (PlaceOrder s order) = Suc (nextPointer s)"
  "orders (PlaceOrder s order) = map_insert (GetOrderId order) (nextPointer s) (orders s)"
  by (simp_all add: PlaceOrder_def Let_def)

lemma PlaceOrder_ptrs:
  "set (book_ptrs (PlaceOrder s order)) = insert (nextPointer s) (set (book_ptrs s))"
  by (auto simp: book_ptrs_def PlaceOrder_bids PlaceOrder_asks push_back_at_ptrs)

lemma PlaceOrder_no_empty:
  "no_empty_level (bids s) \<Longrightarrow> no_empty_level (bids (PlaceOrder s order))"
  "no_empty_level (asks s) \<Longrightarrow> no_empty_level (asks (PlaceOrder s order))"
  by (simp_all add: PlaceOrder_bids PlaceOrder_asks push_back_at_no_empty)

lemma PlaceOrder_wf:
  assumes wf: "wf_book s" and new: "map_of (orders s) (GetOrderId order) = None"
  shows "wf_book (PlaceOrder s order)"
proof -
  let ?s' = "PlaceOrder s order" and ?ptr = "nextPointer s" and ?h = "(heap s)(nextPointer s := order)"
  from wf have srt: "book_sorted s" and db: "distinct (level_ptrs (bids s))"
    and da: "distinct (level_ptrs (asks s))" and fr: "\<forall>a \<in> set (book_ptrs s). a < nextPointer s"
    and lb: "level_ok (heap s) Buy (bids s)" and la: "level_ok (heap s) Sell (asks s)"
    and io: "index_ok s"
    by (simp_all add: wf_book_def)
  from fr have fresh: "?ptr \<notin> set (book_ptrs s)" by auto
  then have fb: "?ptr \<notin> set (level_ptrs (bids s))" and fa: "?ptr \<notin> set (level_ptrs (asks s))"
    by (simp_all add: book_ptrs_def)
  have 1: "book_sorted ?s'" using srt by (rule PlaceOrder_sorted)
  have 2: "distinct (level_ptrs (bids ?s'))"
    using db fb by (simp add: PlaceOrder_bids push_back_at_distinct)
  have 3: "distinct (level_ptrs (asks ?s'))"
    using da fa by (simp add: PlaceOrder_asks push_back_at_distinct)
  have 4: "\<forall>a \<in> set (book_ptrs ?s'). a < nextPointer ?s'"
    using fr by (auto simp: PlaceOrder_ptrs PlaceOrder_fields less_Suc_eq)
  have 5: "level_ok (heap ?s') Buy (bids ?s')"
    using level_ok_fresh[OF lb fb, of order]
    by (simp add: PlaceOrder_fields PlaceOrder_bids push_back_at_level_ok)
  have 6: "level_ok (heap ?s') Sell (asks ?s')"
    using level_ok_fresh[OF la fa, of order]
    by (cases "GetSide order")
       (simp_all add: PlaceOrder_fields PlaceOrder_asks push_back_at_level_ok)
  from new have o: "orders ?s' = orders s @ [(GetOrderId order, ?ptr)]"
    by (simp add: PlaceOrder_fields map_insert_def map_contains_def)
  have m: "map_of (orders ?s') i
      = (case map_of (orders s) i of Some a \<Rightarrow> Some a
         | None \<Rightarrow> if i = GetOrderId order then Some ?ptr else None)" for i
    by (simp add: o map_add_def split: option.splits)
  from io have io1: "\<And>i a. map_of (orders s) i = Some a \<Longrightarrow>
      a \<in> set (book_ptrs s) \<and> GetOrderId (heap s a) = i"
    and io2: "\<And>a. a \<in> set (book_ptrs s) \<Longrightarrow> map_of (orders s) (GetOrderId (heap s a)) = Some a"
    by (simp_all add: index_ok_def)
  have hp: "heap ?s' ?ptr = order" and ho: "\<And>a. a \<noteq> ?ptr \<Longrightarrow> heap ?s' a = heap s a"
    by (simp_all add: PlaceOrder_fields(1))
  have i1: "a \<in> set (book_ptrs ?s') \<and> GetOrderId (heap ?s' a) = i"
    if "map_of (orders ?s') i = Some a" for i a
  proof (cases "map_of (orders s) i")
    case None
    with that have "i = GetOrderId order" "a = ?ptr" by (simp_all add: m split: if_splits)
    with hp show ?thesis by (simp add: PlaceOrder_ptrs)
  next
    case (Some a')
    with that have "a = a'" by (simp add: m)
    with Some io1[of i a] have "a \<in> set (book_ptrs s)" "GetOrderId (heap s a) = i" by simp_all
    moreover with fresh have "a \<noteq> ?ptr" by auto
    ultimately show ?thesis using ho[of a] by (simp add: PlaceOrder_ptrs)
  qed
  have i2: "map_of (orders ?s') (GetOrderId (heap ?s' a)) = Some a"
    if "a \<in> set (book_ptrs ?s')" for a
  proof (cases "a = ?ptr")
    case True
    with hp new show ?thesis by (simp add: m)
  next
    case False
    with that have "a \<in> set (book_ptrs s)" by (simp add: PlaceOrder_ptrs)
    from io2[OF this] False ho[of a] show ?thesis by (simp add: m)
  qed
  from i1 i2 have 7: "index_ok ?s'" unfolding index_ok_def by blast
  from 1 2 3 4 5 6 7 show ?thesis by (simp add: wf_book_def)
qed

subsection \<open>Fill-and-kill orders do not rest\<close>

lemma shrinks_others:
  "shrinks s s' \<Longrightarrow> others_not_FillAndKill ptr s \<Longrightarrow> others_not_FillAndKill ptr s'"
  unfolding shrinks_def others_not_FillAndKill_def static_eq_def by fastforce

lemma shrinks_no_FillAndKill: "shrinks s s' \<Longrightarrow> no_FillAndKill s \<Longrightarrow> no_FillAndKill s'"
  unfolding shrinks_def no_FillAndKill_def static_eq_def by fastforce

lemma others_gone:
  "others_not_FillAndKill ptr s \<Longrightarrow> ptr \<notin> set (book_ptrs s) \<Longrightarrow> no_FillAndKill s"
  unfolding others_not_FillAndKill_def no_FillAndKill_def by auto

lemma CancelFrontFillAndKill_cases [consumes 1, case_names same]:
  assumes "CancelFrontFillAndKill s lv = Inr s'"
  obtains "s' = s" "\<And>p a q m. lv = (p, a # q) # m \<Longrightarrow> GetOrderType (heap s a) \<noteq> FillAndKill"
proof (cases lv)
  case Nil
  with assms have "s' = s" by (simp add: CancelFrontFillAndKill_def)
  with Nil that show ?thesis by simp
next
  case (Cons x m)
  obtain p q0 where x: "x = (p, q0)" by (cases x)
  show ?thesis
  proof (cases q0)
    case Nil
    with assms Cons x show ?thesis by (simp add: CancelFrontFillAndKill_def)
  next
    case (Cons a q)
    show ?thesis
    proof (cases "GetOrderType (heap s a) = FillAndKill")
      case True
      with assms \<open>lv = x # m\<close> x Cons show ?thesis
        by (simp add: CancelFrontFillAndKill_def CancelOrder_from_def scoped_lock_def)
    next
      case False
      with assms \<open>lv = x # m\<close> x Cons have "s' = s"
        by (simp add: CancelFrontFillAndKill_def)
      with False \<open>lv = x # m\<close> x Cons that show ?thesis by simp
    qed
  qed
qed

lemma CancelFrontFillAndKill_wf:
  assumes "CancelFrontFillAndKill s lv = Inr s'" and "wf_book s"
  shows "wf_book s' \<and> shrinks s s'
         \<and> (no_empty_level (bids s) \<longrightarrow> no_empty_level (bids s'))
         \<and> (no_empty_level (asks s) \<longrightarrow> no_empty_level (asks s'))"
  using assms(1)
proof (cases rule: CancelFrontFillAndKill_cases)
  case same
  with assms(2) show ?thesis by simp
qed

lemma CancelFrontFillAndKill_removes:
  assumes run: "CancelFrontFillAndKill s lv = Inr s'" and wf: "wf_book s"
    and lv: "lv = (p, ptr # q) # m" and pin: "ptr \<in> set (book_ptrs s)"
    and ty: "GetOrderType (heap s ptr) = FillAndKill"
  shows "ptr \<notin> set (book_ptrs s')"
  using run
proof (cases rule: CancelFrontFillAndKill_cases)
  case same
  with lv ty show ?thesis by blast
qed

lemma CancelFrontFillAndKill_skips:
  assumes run: "CancelFrontFillAndKill s lv = Inr s'"
  shows "s' = s"
  using run
proof (cases rule: CancelFrontFillAndKill_cases)
  case same
  then show ?thesis by simp
qed

lemma MatchOrders_wf:
  assumes run: "MatchOrders s = Inr (trades, s')" and wf: "wf_book s"
    and ne: "no_empty_level (bids s)" "no_empty_level (asks s)"
    and oth: "others_not_FillAndKill ptr s"
    and fg: "GetOrderType (heap s ptr) = FillAndKill \<longrightarrow> front_or_gone ptr s"
  shows "wf_book s'" and "no_empty_level (bids s')" and "no_empty_level (asks s')"
    and "no_FillAndKill s'" and "shrinks s s'"
proof -
  from run obtain s1 s2 where 1: "MatchLoop s [] = Inr (s1, trades)"
    and 2: "CancelFrontFillAndKill s1 (bids s1) = Inr s2"
    and 3: "CancelFrontFillAndKill s2 (asks s2) = Inr s'"
    unfolding MatchOrders_def by (auto split: sum.splits)
  from MatchLoop_wf[OF 1 wf ne, of ptr]
  have w1: "wf_book s1" and sh1: "shrinks s s1"
    and ne1: "no_empty_level (bids s1)" "no_empty_level (asks s1)"
    and fg1: "front_or_gone ptr s \<longrightarrow> front_or_gone ptr s1"
    by simp_all
  from CancelFrontFillAndKill_wf[OF 2 w1] ne1
  have w2: "wf_book s2" and sh2: "shrinks s1 s2"
    and ne2: "no_empty_level (bids s2)" "no_empty_level (asks s2)"
    by simp_all
  from CancelFrontFillAndKill_wf[OF 3 w2] ne2
  have w3: "wf_book s'" and sh3: "shrinks s2 s'"
    and ne3: "no_empty_level (bids s')" "no_empty_level (asks s')"
    by simp_all
  show "wf_book s'" "no_empty_level (bids s')" "no_empty_level (asks s')" by fact+
  show sh: "shrinks s s'" using sh1 sh2 sh3 shrinks_trans by blast
  from oth sh1 have o1: "others_not_FillAndKill ptr s1" using shrinks_others by blast
  from sh1 have ty1: "GetOrderType (heap s1 ptr) = GetOrderType (heap s ptr)"
    by (simp add: shrinks_def static_eq_def)
  show "no_FillAndKill s'"
  proof (cases "ptr \<in> set (book_ptrs s1) \<and> GetOrderType (heap s ptr) = FillAndKill")
    case False
    then have "no_FillAndKill s1"
      using o1 ty1 unfolding others_not_FillAndKill_def no_FillAndKill_def by metis
    with sh2 sh3 show ?thesis using shrinks_no_FillAndKill by blast
  next
    case True
    with fg fg1 have af: "at_front ptr s1" by (auto simp: front_or_gone_def)
    from True ty1 have ty: "GetOrderType (heap s1 ptr) = FillAndKill" by simp
    show ?thesis
    proof (cases "\<exists>p q m. bids s1 = (p, ptr # q) # m")
      case bid: True
      then obtain p q m where "bids s1 = (p, ptr # q) # m" by blast
      from CancelFrontFillAndKill_removes[OF 2 w1 this _ ty] True
      have "ptr \<notin> set (book_ptrs s2)" by simp
      moreover from o1 sh2 have "others_not_FillAndKill ptr s2" using shrinks_others by blast
      ultimately have "no_FillAndKill s2" by (rule others_gone[rotated])
      with sh3 show ?thesis using shrinks_no_FillAndKill by blast
    next
      case False
      with af obtain p q m where A: "asks s1 = (p, ptr # q) # m" by (auto simp: at_front_def)
      then have "ptr \<in> set (level_ptrs (asks s1))" by simp
      moreover from w1 have "level_ok (heap s1) Buy (bids s1)" "level_ok (heap s1) Sell (asks s1)"
        by (simp_all add: wf_book_def)
      ultimately have "ptr \<notin> set (level_ptrs (bids s1))"
        using level_ok_disjoint by blast
      from CancelFrontFillAndKill_skips[OF 2] have "s2 = s1" .
      with 3 A have "CancelFrontFillAndKill s1 ((p, ptr # q) # m) = Inr s'" by simp
      from CancelFrontFillAndKill_removes[OF this w1 refl _ ty] True
      have "ptr \<notin> set (book_ptrs s')" by simp
      moreover from o1 sh2 sh3 have "others_not_FillAndKill ptr s'" using shrinks_others by blast
      ultimately show ?thesis by (rule others_gone[rotated])
    qed
  qed
qed

lemma MarketToGoodTillCancel_Admitted:
  assumes "MarketToGoodTillCancel s order = Inr (Admitted order1)"
  shows "GetOrderId order1 = GetOrderId order" and "GetSide order1 = GetSide order"
    and "GetOrderType order1 \<noteq> Market"
  using assms
  by (auto simp: MarketToGoodTillCancel_def ToGoodTillCancel_def split: if_splits)

lemma AddOrder_cases [consumes 1, case_names rejected placed]:
  assumes "AddOrder s order = Inr (trades, s')"
  obtains "trades = []" "s' = s"
  | order1 where "map_of (orders s) (GetOrderId order) = None"
      "MarketToGoodTillCancel s order = Inr (Admitted order1)"
      "GetOrderType order1 = FillAndKill \<Longrightarrow> CanMatch s (GetSide order1) (GetPrice order1)"
      "MatchOrders (PlaceOrder s order1) = Inr (trades, s')"
proof (cases "map_contains (orders s) (GetOrderId order)")
  case True
  with assms that(1) show ?thesis by (simp add: AddOrder_def)
next
  case False
  then have new: "map_of (orders s) (GetOrderId order) = None" by (simp add: map_contains_def)
  show ?thesis
  proof (cases "MarketToGoodTillCancel s order")
    case (Inl e)
    with assms False show ?thesis by (simp add: AddOrder_def)
  next
    case (Inr adm)
    show ?thesis
    proof (cases adm)
      case Rejected
      with assms False Inr that(1) show ?thesis by (simp add: AddOrder_def)
    next
      case (Admitted order1)
      show ?thesis
      proof (cases "s' = s \<and> trades = []")
        case True
        with that(1) show ?thesis by simp
      next
        case ne: False
        with assms False Inr Admitted
        have "GetOrderType order1 = FillAndKill \<Longrightarrow> CanMatch s (GetSide order1) (GetPrice order1)"
          and "MatchOrders (PlaceOrder s order1) = Inr (trades, s')"
          by (auto simp: AddOrder_def split: if_splits)
        with new Inr Admitted that(2) show ?thesis by blast
      qed
    qed
  qed
qed

lemma placed_at_front:
  assumes unc: "uncrossed s" and cm: "CanMatch s (GetSide order) (GetPrice order)"
  shows "at_front (nextPointer s) (PlaceOrder s order)"
proof (cases "GetSide order")
  case Buy
  with cm obtain bestAsk aq am where A: "asks s = (bestAsk, aq) # am"
    and le: "bestAsk \<le>s GetPrice order"
    by (auto simp: CanMatch_def split: list.splits)
  have "x \<noteq> GetPrice order \<and> price_greater (GetPrice order) x" if "x \<in> fst ` set (bids s)" for x
  proof -
    from unc that have "x <s bestAsk" by (auto simp: uncrossed_def A)
    from this le have "x <s GetPrice order" by (rule signed.less_le_trans)
    then show ?thesis by (auto simp: price_greater_def)
  qed
  then have "push_back_at price_greater (GetPrice order) (nextPointer s) (bids s)
             = (GetPrice order, [nextPointer s]) # bids s"
    by (intro push_back_at_front) blast
  with Buy show ?thesis by (simp add: at_front_def PlaceOrder_bids)
next
  case Sell
  with cm obtain bestBid bq bm where B: "bids s = (bestBid, bq) # bm"
    and le: "GetPrice order \<le>s bestBid"
    by (auto simp: CanMatch_def split: list.splits)
  have "x \<noteq> GetPrice order \<and> price_less (GetPrice order) x" if "x \<in> fst ` set (asks s)" for x
  proof -
    from unc that have "bestBid <s x" by (auto simp: uncrossed_def B)
    from le this have "GetPrice order <s x" by (rule signed.le_less_trans)
    then show ?thesis by (auto simp: price_less_def)
  qed
  then have "push_back_at price_less (GetPrice order) (nextPointer s) (asks s)
             = (GetPrice order, [nextPointer s]) # asks s"
    by (intro push_back_at_front) blast
  with Sell show ?thesis by (simp add: at_front_def PlaceOrder_asks)
qed

lemma PlaceOrder_others:
  assumes "wf_book s" and "no_FillAndKill s"
  shows "others_not_FillAndKill (nextPointer s) (PlaceOrder s order)"
  using assms
  by (auto simp: others_not_FillAndKill_def no_FillAndKill_def PlaceOrder_ptrs PlaceOrder_fields(1))

lemma AddOrder_inv:
  assumes run: "AddOrder s order = Inr (trades, s')" and inv: "book_inv s"
  shows "book_inv s'"
  using run
proof (cases rule: AddOrder_cases)
  case rejected
  with inv show ?thesis by simp
next
  case (placed order1)
  from inv have wf: "wf_book s" and ne: "no_empty_level (bids s)" "no_empty_level (asks s)"
    and nf: "no_FillAndKill s" and unc: "uncrossed s"
    by (simp_all add: book_inv_def)
  let ?s0 = "PlaceOrder s order1" and ?ptr = "nextPointer s"
  from placed(1) MarketToGoodTillCancel_Admitted(1)[OF placed(2)]
  have "map_of (orders s) (GetOrderId order1) = None" by simp
  with wf have w0: "wf_book ?s0" by (rule PlaceOrder_wf)
  have fg: "GetOrderType (heap ?s0 ?ptr) = FillAndKill \<longrightarrow> front_or_gone ?ptr ?s0"
    using placed(3) placed_at_front[OF unc, of order1]
    by (simp add: PlaceOrder_fields(1) front_or_gone_def)
  note m = MatchOrders_wf[OF placed(4) w0 PlaceOrder_no_empty(1)[OF ne(1)]
      PlaceOrder_no_empty(2)[OF ne(2)] PlaceOrder_others[OF wf nf] fg]
  from wf have "book_sorted s" by (simp add: wf_book_def)
  then have "book_sorted ?s0" by (rule PlaceOrder_sorted)
  with MatchOrders_sorted_uncrossed[OF placed(4)] have "uncrossed s'" by simp
  with m show ?thesis by (simp add: book_inv_def)
qed

lemma CancelOrderInternal_inv:
  assumes run: "CancelOrderInternal s orderId = Inr s'" and inv: "book_inv s"
  shows "book_inv s'"
proof -
  from inv have wf: "wf_book s" and ne: "no_empty_level (bids s)" "no_empty_level (asks s)"
    and nf: "no_FillAndKill s" and unc: "uncrossed s"
    by (simp_all add: book_inv_def)
  note c = CancelOrderInternal_wf[OF run wf]
  from c(2) nf have "no_FillAndKill s'" by (rule shrinks_no_FillAndKill)
  moreover from run unc have "uncrossed s'" by (rule CancelOrderInternal_uncrossed)
  ultimately show ?thesis using c(1) c(5)[OF ne(1)] c(6)[OF ne(2)] by (simp add: book_inv_def)
qed

lemma CancelOrders_inv: "CancelOrders s orderIds = Inr s' \<Longrightarrow> book_inv s \<Longrightarrow> book_inv s'"
proof (induction orderIds arbitrary: s)
  case Nil
  then show ?case by simp
next
  case (Cons orderId orderIds)
  from Cons.prems(1) obtain s1 where 1: "CancelOrderInternal s orderId = Inr s1"
    and 2: "CancelOrders s1 orderIds = Inr s'"
    by (auto split: sum.splits)
  from 1 Cons.prems(2) have "book_inv s1" by (rule CancelOrderInternal_inv)
  with Cons.IH[OF 2] show ?case .
qed

lemma ModifyOrder_inv:
  assumes "ModifyOrder s m = Inr (trades, s')" and "book_inv s"
  shows "book_inv s'"
proof (cases "map_of (orders s) (modOrderId m)")
  case None
  with assms show ?thesis by (simp add: ModifyOrder_def)
next
  case (Some ptr)
  with assms(1) obtain s1 where 1: "CancelOrderInternal s (modOrderId m) = Inr s1"
    and 2: "AddOrder s1 (ToOrderPointer m (GetOrderType (heap s ptr))) = Inr (trades, s')"
    by (auto simp: ModifyOrder_def CancelOrder_eq Let_def split: sum.splits)
  from 1 assms(2) have "book_inv s1" by (rule CancelOrderInternal_inv)
  with 2 show ?thesis by (rule AddOrder_inv)
qed

lemma reachable_inv: "reachable s \<Longrightarrow> book_inv s"
proof (induction rule: reachable.induct)
  case new_book
  show ?case
    by (simp add: book_inv_def wf_book_def emptyBook_def book_sorted_def sorted_levels_def
        book_ptrs_def level_ok_def index_ok_def no_empty_level_def no_FillAndKill_def
        uncrossed_def)
next
  case (after_add s order trades s')
  then show ?case using AddOrder_inv by blast
next
  case (after_cancel s orderId s')
  then show ?case using CancelOrderInternal_inv unfolding CancelOrder_eq by blast
next
  case (after_modify s m trades s')
  then show ?case using ModifyOrder_inv by blast
next
  case (after_cancel_many s orderIds s')
  then show ?case using CancelOrders_inv by blast
qed

section \<open>The operations return\<close>

lemma erase_from_level_total:
  assumes "distinct (map fst lv)" and "(p, q) \<in> set lv" and "ptr \<in> set q"
  shows "\<exists>lv'. erase_from_level p ptr lv = Inr lv'"
proof -
  from assms(1,2) have "map_of lv p = Some q" by simp
  with assms(3) show ?thesis by (simp add: erase_from_level_def Let_def)
qed

lemma CancelOrderInternal_total:
  assumes wf: "wf_book s"
  shows "\<exists>s'. CancelOrderInternal s orderId = Inr s'"
proof (cases "map_of (orders s) orderId")
  case None
  then show ?thesis by (simp add: CancelOrderInternal_def)
next
  case (Some ptr)
  from wf have srt: "book_sorted s"
    and lb: "level_ok (heap s) Buy (bids s)" and la: "level_ok (heap s) Sell (asks s)"
    and io: "index_ok s"
    by (simp_all add: wf_book_def)
  from srt have dk: "distinct (map fst (bids s))" "distinct (map fst (asks s))"
    by (simp_all add: book_sorted_def sorted_levels_distinct_keys)
  from io Some have "ptr \<in> set (book_ptrs s)" by (simp add: index_ok_def)
  then consider (bid) p q where "(p, q) \<in> set (bids s)" "ptr \<in> set q"
    | (ask) p q where "(p, q) \<in> set (asks s)" "ptr \<in> set q"
    unfolding in_book_ptrs in_level_ptrs by blast
  then show ?thesis
  proof cases
    case bid
    with lb have sp: "GetSide (heap s ptr) = Buy" "GetPrice (heap s ptr) = p"
      unfolding level_ok_def by fastforce+
    from erase_from_level_total[OF dk(1) bid] obtain lv where
      "erase_from_level p ptr (bids s) = Inr lv" by blast
    with Some sp show ?thesis by (simp add: CancelOrderInternal_def Let_def)
  next
    case ask
    with la have sp: "GetSide (heap s ptr) = Sell" "GetPrice (heap s ptr) = p"
      unfolding level_ok_def by fastforce+
    from erase_from_level_total[OF dk(2) ask] obtain lv where
      "erase_from_level p ptr (asks s) = Inr lv" by blast
    with Some sp show ?thesis by (simp add: CancelOrderInternal_def Let_def)
  qed
qed

lemma MatchStep_total:
  assumes wf: "wf_book s"
    and B: "bids s = (bp, bid # bq) # bm" and A: "asks s = (ap, ask # aq) # am"
  shows "\<exists>s1 t1. MatchStep s t = Inr (s1, t1)"
proof -
  from wf have "level_ok (heap s) Buy (bids s)" "level_ok (heap s) Sell (asks s)"
    by (simp_all add: wf_book_def)
  moreover have "bid \<in> set (level_ptrs (bids s))" "ask \<in> set (level_ptrs (asks s))"
    by (simp_all add: B A)
  ultimately have ne: "bid \<noteq> ask" using level_ok_disjoint by blast
  then show ?thesis
    unfolding MatchStep_def B A
    by (simp add: Let_def Fill_def not_less)
qed

lemma MatchLevel_total: "wf_book s \<Longrightarrow> \<exists>s' t'. MatchLevel s t = Inr (s', t')"
proof (induction s t rule: MatchLevel.induct)
  case (1 s trades)
  show ?case
  proof (cases "front_nonempty (bids s) \<and> front_nonempty (asks s)")
    case False
    then show ?thesis by (simp add: MatchLevel_stop)
  next
    case True
    then obtain bp bid bq bm ap ask aq am where
      B: "bids s = (bp, bid # bq) # bm" and A: "asks s = (ap, ask # aq) # am"
      unfolding front_nonempty_iff by blast
    from MatchStep_total[OF "1.prems" B A] obtain s1 t1 where
      st: "MatchStep s trades = Inr (s1, t1)" by blast
    from MatchStep_wf(1)[OF "1.prems" B A st] have "wf_book s1" .
    from "1.IH"[OF True st refl this] True st show ?thesis
      by (simp add: MatchLevel_step)
  qed
qed

lemma pass_wf:
  assumes lev: "MatchLevel s t = Inr (s1, t1)" and wf: "wf_book s"
    and B: "bids s = (bp, bq) # bm" and A: "asks s = (ap, aq) # am"
    and ne: "no_empty_level (bids s)" "no_empty_level (asks s)"
  shows "wf_book (erase_front_if_empty_asks ap (erase_front_if_empty_bids bp s1))"
    and "no_empty_level (bids (erase_front_if_empty_asks ap (erase_front_if_empty_bids bp s1)))"
    and "no_empty_level (asks (erase_front_if_empty_asks ap (erase_front_if_empty_bids bp s1)))"
proof -
  from MatchLevel_wf[OF lev wf, of 0]
  have w1: "wf_book s1" and tls: "tl (bids s1) = tl (bids s)" "tl (asks s1) = tl (asks s)"
    by simp_all
  from MatchLevel_keys[OF lev] tls B A obtain bq1 aq1 where
    B1: "bids s1 = (bp, bq1) # bm" and A1: "asks s1 = (ap, aq1) # am"
    by (cases "bids s1"; cases "asks s1") auto
  from ne have nem: "no_empty_level bm" "no_empty_level am"
    using no_empty_level_tl[of "bids s"] no_empty_level_tl[of "asks s"]
    by (simp_all add: B A)
  note e2 = wf_book_erase_front_bids[OF w1 B1 nem(1)]
  from e2(4) A1 have A2: "asks (erase_front_if_empty_bids bp s1) = (ap, aq1) # am" by simp
  note e3 = wf_book_erase_front_asks[OF e2(1) A2 nem(2)]
  show "wf_book (erase_front_if_empty_asks ap (erase_front_if_empty_bids bp s1))" by (rule e3(1))
  show "no_empty_level (bids (erase_front_if_empty_asks ap (erase_front_if_empty_bids bp s1)))"
    using e3(4) e2(3) by simp
  show "no_empty_level (asks (erase_front_if_empty_asks ap (erase_front_if_empty_bids bp s1)))"
    by (rule e3(3))
qed

lemma MatchLoop_total:
  "wf_book s \<Longrightarrow> no_empty_level (bids s) \<Longrightarrow> no_empty_level (asks s) \<Longrightarrow>
   \<exists>s' t'. MatchLoop s t = Inr (s', t')"
proof (induction s t rule: MatchLoop.induct)
  case (1 s trades)
  show ?case
  proof (cases "bids s = [] \<or> asks s = [] \<or> fst (hd (bids s)) <s fst (hd (asks s))")
    case True
    then show ?thesis by (simp add: MatchLoop_stop)
  next
    case False
    then obtain bp bq bm ap aq am where B: "bids s = (bp, bq) # bm"
      and A: "asks s = (ap, aq) # am" and X: "\<not> bp <s ap"
      by (cases "bids s"; cases "asks s") auto
    from MatchLevel_total[OF "1.prems"(1)] obtain s1 t1 where
      lev: "MatchLevel s trades = Inr (s1, t1)" by blast
    note p = pass_wf[OF lev "1.prems"(1) B A "1.prems"(2,3)]
    from "1.IH"[OF B refl A refl X lev refl p] B A X lev show ?thesis
      by (simp add: MatchLoop_pass)
  qed
qed

lemma CancelFrontFillAndKill_noop:
  assumes nf: "no_FillAndKill s" and ne: "no_empty_level lv"
    and sub: "set (level_ptrs lv) \<subseteq> set (book_ptrs s)"
  shows "CancelFrontFillAndKill s lv = Inr s"
proof (cases lv)
  case Nil
  then show ?thesis by (simp add: CancelFrontFillAndKill_def)
next
  case (Cons x m)
  obtain p q where x: "x = (p, q)" by (cases x)
  with ne Cons obtain a q' where q: "q = a # q'" by (cases q) (auto simp: no_empty_level_def)
  with sub Cons x have "a \<in> set (book_ptrs s)" by auto
  with nf have "GetOrderType (heap s a) \<noteq> FillAndKill" by (simp add: no_FillAndKill_def)
  with Cons x q show ?thesis by (simp add: CancelFrontFillAndKill_def)
qed


lemma MatchOrders_total:
  assumes wf: "wf_book s" and ne: "no_empty_level (bids s)" "no_empty_level (asks s)"
    and nf: "no_FillAndKill s"
  shows "\<exists>trades s'. MatchOrders s = Inr (trades, s') \<and> MatchLoop s [] = Inr (s', trades)"
proof -
  from MatchLoop_total[OF wf ne] obtain s1 trades where 1: "MatchLoop s [] = Inr (s1, trades)"
    by blast
  from MatchLoop_wf[OF 1 wf ne, of 0] have sh: "shrinks s s1"
    and ne1: "no_empty_level (bids s1)" "no_empty_level (asks s1)" by simp_all
  from sh nf have nf1: "no_FillAndKill s1" by (rule shrinks_no_FillAndKill)
  from CancelFrontFillAndKill_noop[OF nf1 ne1(1)]
  have 2: "CancelFrontFillAndKill s1 (bids s1) = Inr s1" by (simp add: book_ptrs_def)
  from CancelFrontFillAndKill_noop[OF nf1 ne1(2)]
  have 3: "CancelFrontFillAndKill s1 (asks s1) = Inr s1" by (simp add: book_ptrs_def)
  from 1 2 3 show ?thesis by (simp add: MatchOrders_def)
qed

lemma PlaceOrder_no_FillAndKill:
  assumes "no_FillAndKill s" and "GetOrderType order \<noteq> FillAndKill"
  shows "no_FillAndKill (PlaceOrder s order)"
  using assms by (auto simp: no_FillAndKill_def PlaceOrder_ptrs PlaceOrder_fields(1))

lemma MarketToGoodTillCancel_type:
  assumes "MarketToGoodTillCancel s order = Inr (Admitted order1)"
    and "GetOrderType order \<noteq> FillAndKill"
  shows "GetOrderType order1 \<noteq> FillAndKill"
  using assms
  by (auto simp: MarketToGoodTillCancel_def ToGoodTillCancel_def split: if_splits)

lemma AddOrder_total:
  assumes inv: "book_inv s" and ty: "GetOrderType order \<noteq> FillAndKill"
  shows "\<exists>trades s'. AddOrder s order = Inr (trades, s')"
proof (cases "map_contains (orders s) (GetOrderId order)")
  case True
  then show ?thesis by (simp add: AddOrder_def)
next
  case False
  from inv have wf: "wf_book s" and ne: "no_empty_level (bids s)" "no_empty_level (asks s)"
    and nf: "no_FillAndKill s"
    by (simp_all add: book_inv_def)
  have "\<exists>adm. MarketToGoodTillCancel s order = Inr adm"
    by (simp add: MarketToGoodTillCancel_def ToGoodTillCancel_def)
  then obtain adm where adm: "MarketToGoodTillCancel s order = Inr adm" by blast
  show ?thesis
  proof (cases adm)
    case Rejected
    with False adm show ?thesis by (simp add: AddOrder_def)
  next
    case (Admitted order1)
    from False MarketToGoodTillCancel_Admitted(1)[of s order order1] adm Admitted
    have "map_of (orders s) (GetOrderId order1) = None" by (simp add: map_contains_def)
    with wf have w: "wf_book (PlaceOrder s order1)" by (rule PlaceOrder_wf)
    from adm Admitted ty have "GetOrderType order1 \<noteq> FillAndKill"
      using MarketToGoodTillCancel_type by blast
    with nf have "no_FillAndKill (PlaceOrder s order1)" by (rule PlaceOrder_no_FillAndKill)
    from MatchOrders_total[OF w PlaceOrder_no_empty(1)[OF ne(1)] PlaceOrder_no_empty(2)[OF ne(2)] this]
    obtain trades s' where "MatchOrders (PlaceOrder s order1) = Inr (trades, s')" by blast
    with False adm Admitted show ?thesis by (simp add: AddOrder_def)
  qed
qed

lemma CancelOrders_total: "book_inv s \<Longrightarrow> \<exists>s'. CancelOrders s orderIds = Inr s'"
proof (induction orderIds arbitrary: s)
  case Nil
  show ?case by simp
next
  case (Cons orderId orderIds)
  from Cons.prems have "wf_book s" by (simp add: book_inv_def)
  from CancelOrderInternal_total[OF this] obtain s1 where
    1: "CancelOrderInternal s orderId = Inr s1" by blast
  from 1 Cons.prems have "book_inv s1" by (rule CancelOrderInternal_inv)
  from Cons.IH[OF this] 1 show ?case by simp
qed

lemma ModifyOrder_total:
  assumes "book_inv s"
  shows "\<exists>trades s'. ModifyOrder s m = Inr (trades, s')"
proof (cases "map_of (orders s) (modOrderId m)")
  case None
  then show ?thesis by (simp add: ModifyOrder_def)
next
  case (Some ptr)
  from assms have wf: "wf_book s" and nf: "no_FillAndKill s" by (simp_all add: book_inv_def)
  from wf Some have "ptr \<in> set (book_ptrs s)" by (simp add: wf_book_def index_ok_def)
  with nf have ty: "GetOrderType (heap s ptr) \<noteq> FillAndKill" by (simp add: no_FillAndKill_def)
  from CancelOrderInternal_total[OF wf] obtain s1 where
    1: "CancelOrderInternal s (modOrderId m) = Inr s1" by blast
  from 1 assms have "book_inv s1" by (rule CancelOrderInternal_inv)
  from AddOrder_total[OF this, of "ToOrderPointer m (GetOrderType (heap s ptr))"] ty Some 1
  show ?thesis
    by (simp add: ModifyOrder_def CancelOrder_eq Let_def
        ToOrderPointer_def mkOrder_def)
qed

section \<open>Fill-and-kill orders\<close>

lemma AddOrder_rejects_FillAndKill:
  assumes "GetOrderType order = FillAndKill"
    and "\<not> CanMatch s (GetSide order) (GetPrice order)"
  shows "AddOrder s order = Inr ([], s)"
  using assms by (simp add: AddOrder_def MarketToGoodTillCancel_def)

text \<open>
  Whenever \<open>AddOrder\<close> returns in a reachable state, no order resting on either side of the
  book it returns is a fill-and-kill order.
\<close>

lemma no_FillAndKill_after_AddOrder:
  assumes "reachable s" and "AddOrder s order = Inr (trades, s')"
  shows "no_FillAndKill s'"
proof -
  from assms have "reachable s'" by (rule after_add)
  then have "book_inv s'" by (rule reachable_inv)
  then show ?thesis by (simp add: book_inv_def)
qed

text \<open>
  The residual of a fill-and-kill order is at the front of the first level of its side when
  the matching loop ends, and the block after the loop calls the public \<open>CancelOrder\<close> for
  it, inside \<open>AddOrder\<close>: the block does not return.
\<close>

lemma CancelFrontFillAndKill_Deadlock:
  assumes "lv = (p, ptr # q) # m" and "GetOrderType (heap s ptr) = FillAndKill"
  shows "CancelFrontFillAndKill s lv = Inl Deadlock"
  using assms by (simp add: CancelFrontFillAndKill_def CancelOrder_from_def scoped_lock_def)

text \<open>
  C6. The claim is that a fill-and-kill order that crosses either matches to completion or
  has its residual cancelled before \<open>AddOrder\<close> returns. On the book of
  \<^verbatim>\<open>A B GoodTillCancel 100 10 1\<close>, the order \<^verbatim>\<open>A S FillAndKill 100 15 2\<close> crosses and trades 10;
  the loop ends with its residual of 5 at the front of the asks, and the cancel that
  \<open>MatchOrders\<close> then calls takes the mutex that \<open>AddOrder\<close> holds: the residual is not
  cancelled and \<open>AddOrder\<close> does not return.
\<close>

theorem FillAndKill_residual_cancel_deadlocks:
  "reachable book_bid
   \<and> \<not> map_contains (orders book_bid) (GetOrderId fak_sell)
   \<and> GetOrderType fak_sell = FillAndKill
   \<and> CanMatch book_bid (GetSide fak_sell) (GetPrice fak_sell)
   \<and> (case MatchLoop (PlaceOrder book_bid fak_sell) [] of
         Inl e \<Rightarrow> False
       | Inr (s1, trades) \<Rightarrow>
           trades = [Trade (TradeInfo 1 100 10) (TradeInfo 2 100 10)]
           \<and> bids s1 = [] \<and> asks s1 = [(100, [1])]
           \<and> GetOrderType (heap s1 1) = FillAndKill
           \<and> GetRemainingQuantity (heap s1 1) = 5
           \<and> CancelFrontFillAndKill s1 (bids s1) = Inr s1
           \<and> (case CancelFrontFillAndKill s1 (asks s1) of
                 Inl e \<Rightarrow> e = Deadlock | Inr s2 \<Rightarrow> False))
   \<and> AddOrder book_bid fak_sell = Inl Deadlock"
proof -
  have 1: "\<not> map_contains (orders book_bid) (GetOrderId fak_sell)"
    "GetOrderType fak_sell = FillAndKill"
    "CanMatch book_bid (GetSide fak_sell) (GetPrice fak_sell)"
    by code_simp+
  have 2: "case MatchLoop (PlaceOrder book_bid fak_sell) [] of
         Inl e \<Rightarrow> False
       | Inr (s1, trades) \<Rightarrow>
           trades = [Trade (TradeInfo 1 100 10) (TradeInfo 2 100 10)]
           \<and> bids s1 = [] \<and> asks s1 = [(100, [1])]
           \<and> GetOrderType (heap s1 1) = FillAndKill
           \<and> GetRemainingQuantity (heap s1 1) = 5
           \<and> CancelFrontFillAndKill s1 (bids s1) = Inr s1
           \<and> (case CancelFrontFillAndKill s1 (asks s1) of
                 Inl e \<Rightarrow> e = Deadlock | Inr s2 \<Rightarrow> False)"
  proof (cases "MatchLoop (PlaceOrder book_bid fak_sell) []")
    case (Inl e)
    have "case MatchLoop (PlaceOrder book_bid fak_sell) [] of Inl e \<Rightarrow> False | Inr r \<Rightarrow> True"
      by code_simp
    with Inl show ?thesis by simp
  next
    case (Inr r)
    obtain s1 trades where r: "r = (s1, trades)" by (cases r)
    have ev: "case MatchLoop (PlaceOrder book_bid fak_sell) [] of
         Inl e \<Rightarrow> False
       | Inr (s1, trades) \<Rightarrow>
           trades = [Trade (TradeInfo 1 100 10) (TradeInfo 2 100 10)]
           \<and> bids s1 = [] \<and> asks s1 = [(100, [1])]
           \<and> GetOrderType (heap s1 1) = FillAndKill
           \<and> GetRemainingQuantity (heap s1 1) = 5"
      by code_simp
    with Inr r have f: "trades = [Trade (TradeInfo 1 100 10) (TradeInfo 2 100 10)]"
      "bids s1 = []" "asks s1 = [(100, [1])]" "GetOrderType (heap s1 1) = FillAndKill"
      "GetRemainingQuantity (heap s1 1) = 5"
      by simp_all
    from f(2) have b: "CancelFrontFillAndKill s1 (bids s1) = Inr s1"
      by (simp add: CancelFrontFillAndKill_def)
    from CancelFrontFillAndKill_Deadlock[OF f(3,4)]
    have "CancelFrontFillAndKill s1 (asks s1) = Inl Deadlock" .
    with Inr r f b show ?thesis by simp
  qed
  have "case AddOrder book_bid fak_sell of Inl e \<Rightarrow> e = Deadlock | Inr r \<Rightarrow> False"
    by code_simp
  then have 3: "AddOrder book_bid fak_sell = Inl Deadlock"
    by (cases "AddOrder book_bid fak_sell") simp_all
  from reachable_book_bid 1 2 3 show ?thesis by blast
qed

section \<open>Orders of quantity 0\<close>

















section \<open>The sentinel price\<close>

text \<open>
  C8. The claim is that \<open>InvalidPrice\<close> differs from every real price. The sentinel is the
  value 0 of the price type, the price of an order constructed at price 0: a market order
  built by the three-argument constructor carries the same price as a limit order at
  tick 0, so the two cannot be told apart by price.
\<close>

theorem InvalidPrice_is_price_zero:
  "InvalidPrice = GetPrice (mkOrder GoodTillCancel 1 Buy 0 10)
   \<and> GetPrice (mkMarketOrder 2 Buy 10) = GetPrice (mkOrder GoodTillCancel 1 Buy 0 10)"
  by (simp add: InvalidPrice_def mkMarketOrder_def mkOrder_def)

section \<open>The level data after a cross at one price\<close>

text \<open>
  C1. The claim is that after every public operation the entry of \<open>data\<close> for a price with
  resting orders exists and holds their count and summed remaining quantity. The script
  \<^verbatim>\<open>A B GoodTillCancel 100 10 1\<close>, \<^verbatim>\<open>A S GoodTillCancel 100 5 2\<close> ends with the bid 1 resting
  at 100 with 5 remaining, and no entry for 100 in \<open>data\<close>: both orders shared the entry, and
  \<open>MatchOrders\<close> erased it with the emptied ask level. A fill-or-kill sell of 5 at 100, which
  the resting bid would fill, is then refused by \<open>CanFullyFill\<close>.
\<close>

theorem level_data_lost_on_same_price_cross:
  "(case AddOrder emptyBook (mkOrder GoodTillCancel 1 Buy 100 10) of
      Inl e \<Rightarrow> False
    | Inr (trades1, s1) \<Rightarrow>
        (case AddOrder s1 (mkOrder GoodTillCancel 2 Sell 100 5) of
           Inl e \<Rightarrow> False
         | Inr (trades2, s2) \<Rightarrow>
             trades2 = [Trade (TradeInfo 1 100 5) (TradeInfo 2 100 5)]
             \<and> bids s2 = [(100, [0])] \<and> asks s2 = []
             \<and> GetRemainingQuantity (heap s2 0) = 5
             \<and> map_of (data s2) 100 = None
             \<and> CanMatch s2 Sell 100
             \<and> \<not> CanFullyFill s2 Sell 100 5
             \<and> (case AddOrder s2 (mkOrder FillOrKill 3 Sell 100 5) of
                   Inl e \<Rightarrow> False
                 | Inr (trades3, s3) \<Rightarrow> trades3 = [] \<and> bids s3 = [(100, [0])])))"
  by code_simp

section \<open>Numbers of the test script\<close>

text \<open>
  C9. The claim is that \<open>ToNumber\<close> raises on every negative and on every malformed number
  token. It raises on a negative number that fits 64 bits, but a token without a digit
  and a number that does not fit leave \<open>value\<close> at 0, which is returned.
\<close>

theorem ToNumber_malformed_is_zero:
  "ToNumber ''abc'' = Inr 0
   \<and> ToNumber ''-99999999999999999999'' = Inr 0
   \<and> ToNumber ''-5'' = Inl LogicError"
  by code_simp

end
